theory Spec2Isabelle
  imports Main "HOL-Library.Sublist"
begin

section \<open>Text, characters and the fragment of Python's \<open>re\<close> the scripts use\<close>

text \<open>
  Descriptor texts are Python \<open>str\<close> values, modelled as HOL strings (lists of
  characters); a file's content is the text that \<open>f.read()\<close> returns and that
  \<open>f.write\<close> is given (line ends are line feeds, so Python's newline translation is
  the identity).
\<close>

abbreviation nl :: char where "nl \<equiv> CHR 0x0A"
abbreviation sq :: char where "sq \<equiv> CHR 0x27"
abbreviation dq :: char where "dq \<equiv> CHR 0x22"
abbreviation rparen :: char where "rparen \<equiv> CHR 0x29"

text \<open>Python's \<open>sub in s\<close> on strings.\<close>

fun has_sub :: "string \<Rightarrow> string \<Rightarrow> bool" where
  "has_sub p [] = (p = [])"
| "has_sub p (c # cs) = (prefix p (c # cs) \<or> has_sub p cs)"

text \<open>The number of positions of \<open>s\<close> at which \<open>p\<close> occurs.\<close>

fun occurrences :: "string \<Rightarrow> string \<Rightarrow> nat" where
  "occurrences p [] = (if p = [] then 1 else 0)"
| "occurrences p (c # cs) = (if prefix p (c # cs) then 1 else 0) + occurrences p cs"

text \<open>
  A compiled pattern is modelled by its matcher at the start of a text: \<open>m s\<close> is
  \<open>None\<close> when the pattern does not match at the start of \<open>s\<close>, and
  \<open>Some (g, n)\<close> when it does, with \<open>g\<close> the captured groups and \<open>n\<close> the length
  of the match that Python's backtracking matcher finds (greedy quantifiers give up
  characters only when the rest of the pattern fails). Every pattern of the three
  scripts needs at least one character, so \<open>n\<close> is positive and no match is empty.

  \<open>re.search\<close> returns the leftmost match: its start, its groups and its length.
\<close>

fun re_search :: "(string \<Rightarrow> ('g \<times> nat) option) \<Rightarrow> string \<Rightarrow> (nat \<times> 'g \<times> nat) option" where
  "re_search m [] = (case m [] of Some (g, n) \<Rightarrow> Some (0, g, n) | None \<Rightarrow> None)"
| "re_search m (c # cs) =
     (case m (c # cs) of
        Some (g, n) \<Rightarrow> Some (0, g, n)
      | None \<Rightarrow> (case re_search m cs of
                   Some (i, g, n) \<Rightarrow> Some (Suc i, g, n)
                 | None \<Rightarrow> None))"

text \<open>
  \<open>re.sub(pattern, repl, s)\<close>: the non-overlapping matches are replaced from left to
  right; after a match of length \<open>n\<close> at a position the scan goes on \<open>n\<close> characters
  later (\<open>drop (n - 1) cs\<close> is \<open>drop n (c # cs)\<close> for the positive \<open>n\<close> of these
  patterns). \<open>repl\<close> maps the groups of a match to its replacement, as the lambda of
  the source does; a replacement string without a backslash is the constant function.
\<close>

fun re_sub :: "(string \<Rightarrow> ('g \<times> nat) option) \<Rightarrow> ('g \<Rightarrow> string) \<Rightarrow> string \<Rightarrow> string" where
  "re_sub m repl [] = []"
| "re_sub m repl (c # cs) =
     (case m (c # cs) of
        None \<Rightarrow> c # re_sub m repl cs
      | Some (g, n) \<Rightarrow> repl g @ re_sub m repl (drop (n - 1) cs))"

text \<open>\<open>re.findall\<close>: the groups of the non-overlapping matches, from left to right.\<close>

fun re_findall :: "(string \<Rightarrow> ('g \<times> nat) option) \<Rightarrow> string \<Rightarrow> 'g list" where
  "re_findall m [] = []"
| "re_findall m (c # cs) =
     (case m (c # cs) of
        None \<Rightarrow> re_findall m cs
      | Some (g, n) \<Rightarrow> g # re_findall m (drop (n - 1) cs))"

text \<open>
  A replacement given as a string is a template in which a backslash starts an escape
  (\<open>\n\<close>, \<open>\g<0>\<close>, a group number). The scripts build two templates from their
  inputs: \<open>f'pkgver={version}'\<close> and \<open>f"sha256sums=('{sha256_hash}')"\<close>. A template
  without a backslash stands for itself; the escapes are not modelled, and
  \<open>template_literal\<close> marks the replacement strings the model covers.
\<close>

definition template_literal :: "string \<Rightarrow> bool" where
  "template_literal r = (CHR 0x5C \<notin> set r)"

text \<open>The pattern that is a literal text \<open>lit\<close> (every metacharacter escaped).\<close>

definition m_literal :: "string \<Rightarrow> string \<Rightarrow> (unit \<times> nat) option" where
  "m_literal lit s = (if prefix lit s then Some ((), length lit) else None)"

text \<open>
  \<open>key(.+)\<close>: the key, then the rest of the line, which must not be empty (\<open>.\<close> is
  any character but the line feed). The group is that rest.
\<close>

definition m_rest_of_line :: "string \<Rightarrow> string \<Rightarrow> (string \<times> nat) option" where
  "m_rest_of_line key s =
     (if prefix key s then
        (let v = takeWhile (\<lambda>c. c \<noteq> nl) (drop (length key) s)
         in if v = [] then None else Some (v, length key + length v))
      else None)"


section \<open>The processes and their environment\<close>

text \<open>
  A script is a function of its environment (the answers of the package index, the
  environment variable) and of the state it changes: the files, the console and the
  list of URLs it has requested. A request that raises \<open>requests.RequestException\<close>
  (connection failure, or a status that \<open>raise_for_status\<close> refuses) is \<open>Failed\<close> with
  the exception's text; the JSON of an answered request is well formed and holds the
  keys the scripts read; a file that exists is read as the text it holds, and the
  console takes every line that is printed. \<open>sys.exit(1)\<close> is the exit status 1, the
  end of \<open>main\<close> the exit status 0, and an exception that no handler catches ends the
  run with the exit status 1.
\<close>

datatype 'a fetch = Failed string | Fetched 'a

record proc =
  files :: "string \<rightharpoonup> string"
  console :: "string list"
  requested :: "string list"

definition print :: "string \<Rightarrow> proc \<Rightarrow> proc" where
  "print line p = p\<lparr>console := console p @ [line]\<rparr>"

definition request :: "string \<Rightarrow> proc \<Rightarrow> proc" where
  "request u p = p\<lparr>requested := requested p @ [u]\<rparr>"

text \<open>The check mark and the arrow of the messages, as their UTF-8 bytes.\<close>

definition check_mark :: string where
  "check_mark = [CHR 0xE2, CHR 0x9C, CHR 0x93]"

definition arrow :: string where
  "arrow = [CHR 0xE2, CHR 0x86, CHR 0x92]"

section \<open>Version Checker (\<open>check_version.py\<close>)\<close>

text \<open>
  The environment of the checker: the answer of the index, the value of the variable
  \<open>GITHUB_OUTPUT\<close>, and \<open>append_error\<close>, which gives, for a path that cannot be opened
  for appending, the text of the \<open>OSError\<close> that \<open>open(path, 'a')\<close> raises.
\<close>

record checker_env =
  index_latest :: "string fetch"
  github_output :: "string option"
  append_error :: "string \<Rightarrow> string option"

datatype error = OSError string

text \<open>\<open>get_current_version\<close>: the group of the first match of \<open>pkgver=(.+)\<close>.\<close>

definition get_current_version :: "proc \<Rightarrow> string option \<times> proc" where
  "get_current_version p =
     (case files p ''PKGBUILD'' of
        None \<Rightarrow> (None, print ''ERROR: PKGBUILD file not found'' p)
      | Some pkgbuild_content \<Rightarrow>
          (case re_search (m_rest_of_line ''pkgver='') pkgbuild_content of
             None \<Rightarrow> (None, print ''ERROR: Could not find current version in PKGBUILD'' p)
           | Some (i, v, n) \<Rightarrow> (Some v, p)))"

definition get_latest_version :: "checker_env \<Rightarrow> proc \<Rightarrow> string option \<times> proc" where
  "get_latest_version e p =
     (let p1 = request ''https://pypi.org/pypi/awscli-local/json'' p
      in case index_latest e of
           Failed msg \<Rightarrow> (None, print (''ERROR: Failed to fetch version from PyPI: '' @ msg) p1)
         | Fetched v \<Rightarrow> (Some v, p1))"

text \<open>
  The \<open>with\<close> block of \<open>set_github_output\<close>: the file is opened for appending and the
  text is written to it. The \<open>OSError\<close> of a path that cannot be opened is raised to the
  caller, and the files are as they were.
\<close>

definition append_file :: "checker_env \<Rightarrow> string \<Rightarrow> string \<Rightarrow> proc \<Rightarrow> error + proc" where
  "append_file e path text p =
     (case append_error e path of
        Some msg \<Rightarrow> Inl (OSError msg)
      | None \<Rightarrow>
          Inr (p\<lparr>files := (files p)(path \<mapsto> (case files p path of None \<Rightarrow> [] | Some old \<Rightarrow> old) @ text)\<rparr>))"

text \<open>
  \<open>set_github_output\<close>: the line \<open>key=value\<close> is appended to the file that
  \<open>GITHUB_OUTPUT\<close> names, when the variable is set and not empty, and is printed. The
  function has no handler: an error of the append is raised to \<open>main\<close>, before the line
  is printed.
\<close>

definition set_github_output :: "checker_env \<Rightarrow> string \<Rightarrow> string \<Rightarrow> proc \<Rightarrow> error + proc" where
  "set_github_output e key val p =
     (case github_output e of
        None \<Rightarrow> Inr (print (''Output: '' @ key @ ''='' @ val) p)
      | Some path \<Rightarrow>
          if path = [] then Inr (print (''Output: '' @ key @ ''='' @ val) p)
          else
            (case append_file e path (key @ ''='' @ val @ [nl]) p of
               Inl err \<Rightarrow> Inl err
             | Inr p1 \<Rightarrow> Inr (print (''Output: '' @ key @ ''='' @ val) p1)))"

text \<open>
  \<open>main\<close> of the checker; \<open>not current_version\<close> and \<open>not latest_version\<close> hold for
  \<open>None\<close> and for the empty string. \<open>main\<close> has no handler either: an error raised by
  \<open>set_github_output\<close> ends the run there, with a traceback on the standard error
  stream and the exit status 1.
\<close>

definition checker_main :: "checker_env \<Rightarrow> proc \<Rightarrow> nat \<times> proc" where
  "checker_main e p =
     (case get_current_version p of
        (None, p1) \<Rightarrow> (1, p1)
      | (Some current_version, p1) \<Rightarrow>
          if current_version = [] then (1, p1)
          else
            (case get_latest_version e p1 of
               (None, p2) \<Rightarrow> (1, p2)
             | (Some latest_version, p2) \<Rightarrow>
                 if latest_version = [] then (1, p2)
                 else
                   (let needs_update = (current_version \<noteq> latest_version);
                        p3 = print (''Current version: '' @ current_version) p2;
                        p4 = print (''Latest version: '' @ latest_version) p3;
                        p5 = print (''Needs update: '' @ (if needs_update then ''True'' else ''False'')) p4
                    in case set_github_output e ''current_version'' current_version p5 of
                         Inl err \<Rightarrow> (1, p5)
                       | Inr p6 \<Rightarrow>
                           (case set_github_output e ''latest_version'' latest_version p6 of
                              Inl err \<Rightarrow> (1, p6)
                            | Inr p7 \<Rightarrow>
                                (case set_github_output e ''needs_update''
                                        (if needs_update then ''true'' else ''false'') p7 of
                                   Inl err \<Rightarrow> (1, p7)
                                 | Inr p8 \<Rightarrow>
                                     if needs_update
                                     then (0, print (check_mark @ '' Update available: '' @ current_version
                                                       @ '' '' @ arrow @ '' '' @ latest_version) p8)
                                     else (0, print (check_mark @ '' Already up to date'') p8))))))"

section \<open>Descriptor Updater (\<open>update_pkgbuild.py\<close>)\<close>

text \<open>
  One entry of the \<open>urls\<close> list of a version's record, and what \<open>get_package_info\<close>
  returns. \<open>sha256_hexdigest\<close> is \<open>hashlib.sha256(content).hexdigest()\<close>, a parameter
  of the model; \<open>write_error\<close> gives, for a path that cannot be opened for writing, the
  text of the \<open>IOError\<close> (the file is then left as it was).
\<close>

record file_info =
  packagetype :: string
  url :: string
  digest_sha256 :: string

record package_info =
  pi_url :: string
  pi_sha256 :: string

record updater_env =
  index_record :: "string \<Rightarrow> file_info list fetch"
  download :: "string \<Rightarrow> string fetch"
  sha256_hexdigest :: "string \<Rightarrow> string"
  write_error :: "string \<Rightarrow> string option"

text \<open>The loop over \<open>files\<close> that keeps the first \<open>sdist\<close> entry.\<close>

fun first_sdist :: "file_info list \<Rightarrow> file_info option" where
  "first_sdist [] = None"
| "first_sdist (f # fs) = (if packagetype f = ''sdist'' then Some f else first_sdist fs)"

definition get_package_info :: "updater_env \<Rightarrow> string \<Rightarrow> proc \<Rightarrow> package_info option \<times> proc" where
  "get_package_info e version p =
     (let p1 = request (''https://pypi.org/pypi/awscli-local/'' @ version @ ''/json'') p
      in case index_record e version of
           Failed msg \<Rightarrow>
             (None, print (''ERROR: Failed to get package info from PyPI: '' @ msg) p1)
         | Fetched fs \<Rightarrow>
             (case first_sdist fs of
                None \<Rightarrow> (None, print ''ERROR: No source distribution found on PyPI'' p1)
              | Some source_file \<Rightarrow>
                  (Some \<lparr>pi_url = url source_file, pi_sha256 = digest_sha256 source_file\<rparr>, p1)))"

definition verify_checksum :: "updater_env \<Rightarrow> string \<Rightarrow> string \<Rightarrow> proc \<Rightarrow> bool \<times> proc" where
  "verify_checksum e u expected_sha256 p =
     (let p1 = request u (print ''Downloading package to verify checksum...'' p)
      in case download e u of
           Failed msg \<Rightarrow>
             (False, print (''ERROR: Failed to download package for verification: '' @ msg) p1)
         | Fetched content \<Rightarrow>
             (let calculated_sha256 = sha256_hexdigest e content
              in if expected_sha256 \<noteq> calculated_sha256
                 then (False,
                       print (''Calculated:   '' @ calculated_sha256)
                         (print (''PyPI reports: '' @ expected_sha256)
                            (print ''ERROR: Checksum mismatch!'' p1)))
                 else (True, print (check_mark @ '' Checksum verification passed'') p1)))"

text \<open>\<open>s.split(sep)\<close> for a separator that is not empty, and its last piece.\<close>

fun split_from :: "string \<Rightarrow> string \<Rightarrow> string \<Rightarrow> string list" where
  "split_from sep piece [] = [piece]"
| "split_from sep piece (c # cs) =
     (if prefix sep (c # cs) then piece # split_from sep [] (drop (length sep - 1) cs)
      else split_from sep (piece @ [c]) cs)"

definition py_split :: "string \<Rightarrow> string \<Rightarrow> string list" where
  "py_split sep s = split_from sep [] s"

definition registry :: string where
  "registry = ''https://files.pythonhosted.org/packages/''"

text \<open>
  The middle of the source pattern,
  \<open>[^)]*https://files\.pythonhosted\.org/packages/[^")]+\<close>, inside the text before the
  closing parenthesis: the greedy \<open>[^)]*\<close> gives characters back until the registry
  prefix follows with at least one character that is neither a double quote nor a
  parenthesis, so the last such occurrence wins. The result is the text up to the end
  of the prefix and the text after it.
\<close>

fun last_registry :: "string \<Rightarrow> (string \<times> string) option" where
  "last_registry [] = None"
| "last_registry (c # cs) =
     (case last_registry cs of
        Some (before, after) \<Rightarrow> Some (c # before, after)
      | None \<Rightarrow>
          if prefix registry (c # cs) \<and>
             takeWhile (\<lambda>x. x \<noteq> dq \<and> x \<noteq> rparen) (drop (length registry) (c # cs)) \<noteq> []
          then Some (registry, drop (length registry) (c # cs))
          else None)"

text \<open>
  \<open>(source=\([^)]*https://files\.pythonhosted\.org/packages/)[^")]+([^)]*\))\<close>: the
  groups are the text up to the end of the registry prefix and the text from the
  first double quote or parenthesis after it to the closing parenthesis; between them
  \<open>[^")]+\<close> takes every character up to that double quote or parenthesis.
\<close>

definition m_source_url :: "string \<Rightarrow> ((string \<times> string) \<times> nat) option" where
  "m_source_url s =
     (if prefix ''source=('' s then
        (let r = drop 8 s; body = takeWhile (\<lambda>c. c \<noteq> rparen) r
         in if length body = length r then None
            else (case last_registry body of
                    None \<Rightarrow> None
                  | Some (before, after) \<Rightarrow>
                      (let old = takeWhile (\<lambda>x. x \<noteq> dq \<and> x \<noteq> rparen) after
                       in Some ((''source=('' @ before, drop (length old) after @ '')''),
                                8 + length body + 1))))
      else None)"

text \<open>
  \<open>key([^)]+)\)\<close> for a key that ends with the opening parenthesis, as in
  \<open>source=\([^)]+\)\<close> and \<open>arch=\(([^)]+)\)\<close>: the group is the text between the
  parentheses, which is not empty.
\<close>

definition m_array :: "string \<Rightarrow> string \<Rightarrow> (string \<times> nat) option" where
  "m_array key s =
     (if prefix key s then
        (let r = drop (length key) s; body = takeWhile (\<lambda>c. c \<noteq> rparen) r
         in if body = [] \<or> length body = length r then None
            else Some (body, length key + length body + 1))
      else None)"

text \<open>\<open>sha256sums=\('[^']*'\)\<close>: one value in single quotes, which may be empty.\<close>

definition m_quoted_checksum :: "string \<Rightarrow> (unit \<times> nat) option" where
  "m_quoted_checksum s =
     (if prefix (''sha256sums=('' @ [sq]) s then
        (let r = drop 13 s; v = takeWhile (\<lambda>c. c \<noteq> sq) r
         in if prefix [sq, rparen] (drop (length v) r) then Some ((), 13 + length v + 2)
            else None)
      else None)"

definition sentinel :: string where
  "sentinel = ''sha256sums=('' @ [sq] @ ''SKIP'' @ [sq] @ '')''"

text \<open>The text \<open>f"sha256sums=('{sha256_hash}')"\<close>.\<close>

definition checksum_assignment :: "string \<Rightarrow> string" where
  "checksum_assignment sha256_hash = ''sha256sums=('' @ [sq] @ sha256_hash @ [sq] @ '')''"

text \<open>
  The four rewriting steps of \<open>update_pkgbuild\<close> on the text of the descriptor. The
  two templates \<open>f'pkgver={version}'\<close> and \<open>f"sha256sums=('{sha256_hash}')"\<close> stand
  for themselves (see \<open>template_literal\<close>).
\<close>

definition update_version :: "string \<Rightarrow> string \<Rightarrow> string" where
  "update_version version content =
     re_sub (m_rest_of_line ''pkgver='') (\<lambda>_. ''pkgver='' @ version) content"

definition reset_pkgrel :: "string \<Rightarrow> string" where
  "reset_pkgrel content = re_sub (m_rest_of_line ''pkgrel='') (\<lambda>_. ''pkgrel=1'') content"

definition update_source :: "string \<Rightarrow> string \<Rightarrow> string" where
  "update_source download_url content =
     (if has_sub ''source=('' content then
        (let url_suffix = last (py_split ''packages/'' download_url)
         in re_sub m_source_url (\<lambda>(g1, g2). g1 @ url_suffix @ g2) content)
      else content)"

definition update_sha256 :: "string \<Rightarrow> string \<Rightarrow> string" where
  "update_sha256 sha256_hash content =
     (if has_sub sentinel content then
        re_sub (m_literal sentinel) (\<lambda>_. checksum_assignment sha256_hash) content
      else if has_sub ''sha256sums=('' content then
        re_sub m_quoted_checksum (\<lambda>_. checksum_assignment sha256_hash) content
      else
        (case re_search (m_array ''source=('') content of
           Some (start, body, n) \<Rightarrow>
             (let insert_pos = start + n
              in take insert_pos content @ [nl] @ checksum_assignment sha256_hash
                 @ drop insert_pos content)
         | None \<Rightarrow> content))"

definition rewrite :: "string \<Rightarrow> package_info \<Rightarrow> string \<Rightarrow> string" where
  "rewrite version info content =
     update_sha256 (pi_sha256 info)
       (update_source (pi_url info) (reset_pkgrel (update_version version content)))"

definition update_pkgbuild :: "updater_env \<Rightarrow> string \<Rightarrow> package_info \<Rightarrow> proc \<Rightarrow> bool \<times> proc" where
  "update_pkgbuild e version info p =
     (case files p ''PKGBUILD'' of
        None \<Rightarrow> (False, print ''ERROR: PKGBUILD file not found'' p)
      | Some content \<Rightarrow>
          (case write_error e ''PKGBUILD'' of
             Some msg \<Rightarrow> (False, print (''ERROR: Failed to write PKGBUILD: '' @ msg) p)
           | None \<Rightarrow>
               (True, print (check_mark @ '' PKGBUILD updated successfully'')
                        (p\<lparr>files := (files p)(''PKGBUILD'' \<mapsto> rewrite version info content)\<rparr>))))"

text \<open>
  \<open>main\<close> of the updater, with the parsed arguments: the version and the flag that
  \<open>--no-verify\<close> clears.
\<close>

definition updater_main :: "updater_env \<Rightarrow> string \<Rightarrow> bool \<Rightarrow> proc \<Rightarrow> nat \<times> proc" where
  "updater_main e version verify p =
     (let p0 = print (''Updating PKGBUILD to version '' @ version) p
      in case get_package_info e version p0 of
           (None, p1) \<Rightarrow> (1, p1)
         | (Some info, p1) \<Rightarrow>
             (let p2 = print (''SHA256: '' @ pi_sha256 info)
                         (print (''Download URL: '' @ pi_url info) p1);
                  (verified, p3) = (if verify then verify_checksum e (pi_url info) (pi_sha256 info) p2
                                    else (True, p2))
              in if \<not> verified then (1, p3)
                 else (case update_pkgbuild e version info p3 of
                         (False, p4) \<Rightarrow> (1, p4)
                       | (True, p4) \<Rightarrow>
                           (0, print (check_mark @ '' Successfully updated to version '' @ version) p4))))"

section \<open>Metadata Regenerator (\<open>generate_srcinfo.py\<close>)\<close>

text \<open>
  \<open>\s\<close> in a \<open>str\<close> pattern is Unicode white space; among the characters below 256
  these are the tab to the carriage return, the four separators \<open>0x1C\<close> to \<open>0x1F\<close>,
  the space, \<open>0x85\<close> and \<open>0xA0\<close>.
\<close>

definition is_space :: "char \<Rightarrow> bool" where
  "is_space c = (c \<in> set [CHR 0x09, CHR 0x0A, CHR 0x0B, CHR 0x0C, CHR 0x0D,
                             CHR 0x1C, CHR 0x1D, CHR 0x1E, CHR 0x1F, CHR 0x20,
                             CHR 0x85, CHR 0xA0])"

text \<open>\<open>key([^\s]+)\<close>: the key and the characters up to the next white space.\<close>

definition m_nonspace :: "string \<Rightarrow> string \<Rightarrow> (string \<times> nat) option" where
  "m_nonspace key s =
     (if prefix key s then
        (let v = takeWhile (\<lambda>c. \<not> is_space c) (drop (length key) s)
         in if v = [] then None else Some (v, length key + length v))
      else None)"

text \<open>
  \<open>key"([^"]+)"\<close>, for a key given with its opening double quote: at least one
  character, then the closing double quote.
\<close>

definition m_dquoted :: "string \<Rightarrow> string \<Rightarrow> (string \<times> nat) option" where
  "m_dquoted key s =
     (if prefix key s then
        (let r = drop (length key) s; v = takeWhile (\<lambda>c. c \<noteq> dq) r
         in if v = [] \<or> length v = length r then None
            else Some (v, length key + length v + 1))
      else None)"

text \<open>
  \<open>'([^']+)'|"([^"]+)"|([^\s'"]+)\<close>: an item in single quotes, an item in double
  quotes, or a run of characters that are neither white space nor quotes. The groups
  that take no part in a match are empty strings in the tuples of \<open>findall\<close>.
\<close>

definition m_item :: "string \<Rightarrow> ((string \<times> string \<times> string) \<times> nat) option" where
  "m_item s =
     (case s of
        [] \<Rightarrow> None
      | c # cs \<Rightarrow>
          (let v1 = takeWhile (\<lambda>x. x \<noteq> sq) cs;
               v2 = takeWhile (\<lambda>x. x \<noteq> dq) cs;
               v3 = takeWhile (\<lambda>x. \<not> is_space x \<and> x \<noteq> sq \<and> x \<noteq> dq) (c # cs)
           in if c = sq \<and> v1 \<noteq> [] \<and> length v1 < length cs
                then Some ((v1, [], []), length v1 + 2)
              else if c = dq \<and> v2 \<noteq> [] \<and> length v2 < length cs
                then Some (([], v2, []), length v2 + 2)
              else if v3 \<noteq> [] then Some (([], [], v3), length v3)
              else None))"

text \<open>\<open>next(filter(None, item), None)\<close>: the first group that is not empty.\<close>

definition first_nonempty :: "string \<times> string \<times> string \<Rightarrow> string option" where
  "first_nonempty item =
     (case item of (a, b, c) \<Rightarrow>
        if a \<noteq> [] then Some a else if b \<noteq> [] then Some b
        else if c \<noteq> [] then Some c else None)"

fun collect_items :: "(string \<times> string \<times> string) list \<Rightarrow> string list" where
  "collect_items [] = []"
| "collect_items (item # rest) =
     (case first_nonempty item of
        Some v \<Rightarrow> v # collect_items rest
      | None \<Rightarrow> collect_items rest)"

definition extract_array :: "string \<Rightarrow> string \<Rightarrow> string list" where
  "extract_array key content =
     (case re_search (m_array key) content of
        Some (i, array_content, n) \<Rightarrow> collect_items (re_findall m_item array_content)
      | None \<Rightarrow> [])"

text \<open>
  \<open>extract_field\<close> (always called with \<open>required=True\<close>), for a pattern given by its
  matcher and by its source text, which the error message shows.
\<close>

definition extract_field ::
  "(string \<Rightarrow> (string \<times> nat) option) \<Rightarrow> string \<Rightarrow> string \<Rightarrow> proc \<Rightarrow> string option \<times> proc" where
  "extract_field m pattern content p =
     (case re_search m content of
        Some (i, v, n) \<Rightarrow> (Some v, p)
      | None \<Rightarrow> (None, print (''ERROR: Could not find required field: '' @ pattern) p))"

record pkg_info =
  pkgname :: string
  pkgver :: string
  pkgrel :: string
  pkgdesc :: string
  pkgurl :: string
  arch :: "string list"
  license :: "string list"
  depends :: "string list"
  makedepends :: "string list"

text \<open>\<open>all([...])\<close> over the five fields: none is \<open>None\<close> or empty.\<close>

definition truthy :: "string option \<Rightarrow> bool" where
  "truthy v = (case v of None \<Rightarrow> False | Some x \<Rightarrow> x \<noteq> [])"

definition parse_pkgbuild :: "proc \<Rightarrow> pkg_info option \<times> proc" where
  "parse_pkgbuild p =
     (case files p ''PKGBUILD'' of
        None \<Rightarrow> (None, print ''ERROR: PKGBUILD file not found'' p)
      | Some content \<Rightarrow>
          (let (name, p1) = extract_field (m_nonspace ''pkgname='') (''pkgname=([^'' @ [CHR 0x5C] @ ''s]+)'') content p;
               (ver, p2) = extract_field (m_nonspace ''pkgver='') (''pkgver=([^'' @ [CHR 0x5C] @ ''s]+)'') content p1;
               (rel, p3) = extract_field (m_nonspace ''pkgrel='') (''pkgrel=([^'' @ [CHR 0x5C] @ ''s]+)'') content p2;
               (desc, p4) = extract_field (m_dquoted (''pkgdesc='' @ [dq]))
                              (''pkgdesc='' @ [dq] @ ''([^'' @ [dq] @ '']+)'' @ [dq]) content p3;
               (u, p5) = extract_field (m_dquoted (''url='' @ [dq]))
                           (''url='' @ [dq] @ ''([^'' @ [dq] @ '']+)'' @ [dq]) content p4
           in if \<not> (truthy name \<and> truthy ver \<and> truthy rel \<and> truthy desc \<and> truthy u)
              then (None, p5)
              else
                (let arch0 = extract_array ''arch=('' content;
                     license0 = extract_array ''license=('' content;
                     depends0 = extract_array ''depends=('' content;
                     makedepends0 = extract_array ''makedepends=('' content
                 in (Some \<lparr>pkgname = the name, pkgver = the ver, pkgrel = the rel,
                            pkgdesc = the desc, pkgurl = the u,
                            arch = (if arch0 = [] then [''any''] else arch0),
                            license = (if license0 = [] then [''unknown''] else license0),
                            depends = depends0, makedepends = makedepends0\<rparr>, p5))))"

text \<open>\<open>sep.join(lines)\<close>.\<close>

fun join :: "string \<Rightarrow> string list \<Rightarrow> string" where
  "join sep [] = []"
| "join sep [x] = x"
| "join sep (x # y # ys) = x @ sep @ join sep (y # ys)"

definition tab :: string where
  "tab = [CHR 0x09]"

definition srcinfo_lines :: "pkg_info \<Rightarrow> string list" where
  "srcinfo_lines info =
     [''pkgbase = '' @ pkgname info,
      tab @ ''pkgdesc = '' @ pkgdesc info,
      tab @ ''pkgver = '' @ pkgver info,
      tab @ ''pkgrel = '' @ pkgrel info,
      tab @ ''url = '' @ pkgurl info]
     @ map (\<lambda>a. tab @ ''arch = '' @ a) (arch info)
     @ map (\<lambda>l. tab @ ''license = '' @ l) (license info)
     @ map (\<lambda>d. tab @ ''depends = '' @ d) (depends info)
     @ map (\<lambda>d. tab @ ''makedepends = '' @ d) (makedepends info)
     @ [[], ''pkgname = '' @ pkgname info]"

definition generate_srcinfo :: "pkg_info \<Rightarrow> string" where
  "generate_srcinfo info = join [nl] (srcinfo_lines info) @ [nl]"

text \<open>
  \<open>main\<close> of the regenerator; \<open>werr\<close> gives, for a path that cannot be opened for
  writing, the text of the \<open>IOError\<close>.
\<close>

definition regenerator_main :: "(string \<Rightarrow> string option) \<Rightarrow> proc \<Rightarrow> nat \<times> proc" where
  "regenerator_main werr p =
     (case parse_pkgbuild (print ''Generating .SRCINFO from PKGBUILD...'' p) of
        (None, p1) \<Rightarrow> (1, p1)
      | (Some info, p1) \<Rightarrow>
          (case werr ''.SRCINFO'' of
             Some msg \<Rightarrow> (1, print (''ERROR: Failed to write .SRCINFO: '' @ msg) p1)
           | None \<Rightarrow>
               (0, print (check_mark @ '' .SRCINFO generated successfully'')
                     (p1\<lparr>files := (files p1)(''.SRCINFO'' \<mapsto> generate_srcinfo info)\<rparr>))))"

section \<open>Descriptions of inputs\<close>

text \<open>
  The output file of the checker can be written: the variable \<open>GITHUB_OUTPUT\<close> is
  unset or empty, or the path it names can be opened for appending.
\<close>

definition output_writable :: "checker_env \<Rightarrow> bool" where
  "output_writable e =
     (case github_output e of
        None \<Rightarrow> True
      | Some path \<Rightarrow> path = [] \<or> append_error e path = None)"

text \<open>
  A digest as the index reports it: lower-case hexadecimal digits (no quote, no
  backslash, nothing that could be read as part of an assignment).
\<close>

definition is_hex_digest :: "string \<Rightarrow> bool" where
  "is_hex_digest h = list_all (\<lambda>c. c \<in> set ''0123456789abcdef'') h"

text \<open>
  Descriptors laid out in lines, as package recipes usually are: a version line, a
  release line, a source line with the registry URL in double quotes, a checksum line
  with one value in single quotes, or any other line that holds none of the four
  keys. The values hold no line feed, no \<open>=\<close> and no opening parenthesis; the path of
  a source line holds no double quote and no closing parenthesis either, and the
  value of a checksum line no single quote. Every line ends with a line feed.
\<close>

datatype descriptor_line =
    Version_line string
  | Release_line string
  | Source_line string
  | Checksum_line string
  | Other_line string

fun line_text :: "descriptor_line \<Rightarrow> string" where
  "line_text (Version_line v) = ''pkgver='' @ v"
| "line_text (Release_line r) = ''pkgrel='' @ r"
| "line_text (Source_line path) = ''source=('' @ [dq] @ registry @ path @ [dq] @ '')''"
| "line_text (Checksum_line h) = checksum_assignment h"
| "line_text (Other_line t) = t"

definition descriptor_text :: "descriptor_line list \<Rightarrow> string" where
  "descriptor_text ls = concat (map (\<lambda>l. line_text l @ [nl]) ls)"

definition avoids :: "char list \<Rightarrow> string \<Rightarrow> bool" where
  "avoids cs s = list_all (\<lambda>c. c \<notin> set cs) s"

fun line_ok :: "descriptor_line \<Rightarrow> bool" where
  "line_ok (Version_line v) = (v \<noteq> [] \<and> avoids [nl, CHR ''='', CHR ''(''] v)"
| "line_ok (Release_line r) = (r \<noteq> [] \<and> avoids [nl, CHR ''='', CHR ''(''] r)"
| "line_ok (Source_line path) =
     (path \<noteq> [] \<and> avoids [nl, CHR ''='', CHR ''('', dq, rparen] path \<and> \<not> has_sub registry path)"
| "line_ok (Checksum_line h) = avoids [nl, CHR ''='', CHR ''('', sq] h"
| "line_ok (Other_line t) =
     (nl \<notin> set t \<and> \<not> has_sub ''pkgver='' t \<and> \<not> has_sub ''pkgrel='' t \<and>
      \<not> has_sub ''source=('' t \<and> \<not> has_sub ''sha256sums=('' t)"

fun is_checksum_line :: "descriptor_line \<Rightarrow> bool" where
  "is_checksum_line (Checksum_line h) = True"
| "is_checksum_line l = False"

text \<open>
  When the sentinel line is there, it is the only kind of checksum line (no second
  checksum assignment beside the placeholder).
\<close>

definition sentinel_exclusive :: "descriptor_line list \<Rightarrow> bool" where
  "sentinel_exclusive ls =
     (Checksum_line ''SKIP'' \<notin> set ls \<or>
      list_all (\<lambda>l. \<not> is_checksum_line l \<or> l = Checksum_line ''SKIP'') ls)"

text \<open>
  The descriptor one expects after an update to version \<open>v\<close> with the path \<open>path\<close>
  and the digest \<open>h\<close>, line by line; without any checksum line, a new one follows the
  first source line.
\<close>

fun updated_line :: "string \<Rightarrow> string \<Rightarrow> string \<Rightarrow> descriptor_line \<Rightarrow> descriptor_line" where
  "updated_line v path h (Version_line old) = Version_line v"
| "updated_line v path h (Release_line old) = Release_line ''1''"
| "updated_line v path h (Source_line old) = Source_line path"
| "updated_line v path h (Checksum_line old) = Checksum_line h"
| "updated_line v path h (Other_line t) = Other_line t"

fun insert_after_source :: "descriptor_line \<Rightarrow> descriptor_line list \<Rightarrow> descriptor_line list" where
  "insert_after_source c [] = []"
| "insert_after_source c (Source_line path # ls) = Source_line path # c # ls"
| "insert_after_source c (l # ls) = l # insert_after_source c ls"

definition updated_lines :: "string \<Rightarrow> string \<Rightarrow> string \<Rightarrow> descriptor_line list \<Rightarrow> descriptor_line list" where
  "updated_lines v path h ls =
     (if list_ex is_checksum_line ls then map (updated_line v path h) ls
      else insert_after_source (Checksum_line h) (map (updated_line v path h) ls))"

section \<open>Sample inputs\<close>

text \<open>Concrete descriptors and states, for the instances of the theorems below.\<close>

definition sample_descriptor :: string where
  "sample_descriptor = ''pkgname=awscli-local'' @ [nl] @ ''pkgver=1.0.0'' @ [nl] @ ''pkgrel=1'' @ [nl]"

definition sample_proc :: proc where
  "sample_proc = \<lparr>files = [''PKGBUILD'' \<mapsto> sample_descriptor], console = [], requested = []\<rparr>"

text \<open>
  An index that answers a request for version \<open>2.0.0\<close> with a wheel and a source
  distribution, a download that returns some content, and a digest function under
  which that content does not have the digest the index reports.
\<close>

definition sample_sdist :: file_info where
  "sample_sdist = \<lparr>packagetype = ''sdist'',
                    url = ''https://files.pythonhosted.org/packages/ab/cd/awscli-local-2.0.0.tar.gz'',
                    digest_sha256 = ''0123abcd''\<rparr>"

definition sample_wheel :: file_info where
  "sample_wheel = \<lparr>packagetype = ''bdist_wheel'',
                    url = ''https://files.pythonhosted.org/packages/ab/cd/awscli_local-2.0.0-py3-none-any.whl'',
                    digest_sha256 = ''4567ef00''\<rparr>"

definition sample_env :: "file_info list fetch \<Rightarrow> updater_env" where
  "sample_env answer =
     \<lparr>index_record = (\<lambda>v. answer),
      download = (\<lambda>u. Fetched ''tarball bytes''),
      sha256_hexdigest = (\<lambda>content. ''ffff0000''),
      write_error = (\<lambda>path. None)\<rparr>"

text \<open>
  A descriptor with empty \<open>arch\<close> and \<open>depends\<close> arrays and one build dependency, and
  descriptors whose description is an empty quoted value or is missing.
\<close>

definition empty_depends_descriptor :: string where
  "empty_depends_descriptor =
     ''pkgname=awscli-local'' @ [nl] @ ''pkgver=1.0.0'' @ [nl] @ ''pkgrel=1'' @ [nl]
     @ ''pkgdesc='' @ [dq] @ ''Thin wrapper'' @ [dq] @ [nl]
     @ ''url='' @ [dq] @ ''https://example.org'' @ [dq] @ [nl]
     @ ''arch=()'' @ [nl]
     @ ''license=('' @ [sq] @ ''Apache'' @ [sq] @ '')'' @ [nl]
     @ ''depends=()'' @ [nl]
     @ ''makedepends=('' @ [sq] @ ''python-setuptools'' @ [sq] @ '')'' @ [nl]"

definition empty_pkgdesc_descriptor :: string where
  "empty_pkgdesc_descriptor =
     ''pkgname=awscli-local'' @ [nl] @ ''pkgver=1.0.0'' @ [nl] @ ''pkgrel=1'' @ [nl]
     @ ''pkgdesc='' @ [dq, dq] @ [nl]
     @ ''url='' @ [dq] @ ''https://example.org'' @ [dq] @ [nl]"

definition proc_of :: "string \<Rightarrow> proc" where
  "proc_of descriptor = \<lparr>files = [''PKGBUILD'' \<mapsto> descriptor], console = [], requested = []\<rparr>"

text \<open>
  What \<open>get_package_info\<close> returns for the sample record, and an environment in which
  the downloaded content has the digest the index reports.
\<close>

definition sample_info :: package_info where
  "sample_info = \<lparr>pi_url = url sample_sdist, pi_sha256 = digest_sha256 sample_sdist\<rparr>"

definition verified_env :: updater_env where
  "verified_env =
     \<lparr>index_record = (\<lambda>v. Fetched [sample_wheel, sample_sdist]),
      download = (\<lambda>u. Fetched ''tarball bytes''),
      sha256_hexdigest = (\<lambda>content. ''0123abcd''),
      write_error = (\<lambda>path. None)\<rparr>"

text \<open>A descriptor whose source array holds the registry URL in single quotes.\<close>

definition single_quoted_source_descriptor :: string where
  "single_quoted_source_descriptor =
     ''pkgver=1.0.0'' @ [nl] @ ''pkgrel=3'' @ [nl]
     @ ''source=('' @ [sq]
     @ ''https://files.pythonhosted.org/packages/source/a/awscli-local/awscli-local-1.0.0.tar.gz''
     @ [sq] @ '')'' @ [nl]
     @ ''sha256sums=('' @ [sq] @ ''SKIP'' @ [sq] @ '')'' @ [nl]"

text \<open>
  A descriptor in lines with the sentinel as its checksum, and a descriptor that has
  an old checksum in a comment beside the sentinel.
\<close>

definition sample_lines :: "descriptor_line list" where
  "sample_lines =
     [Other_line ''pkgname=awscli-local'',
      Version_line ''1.0.0'',
      Release_line ''3'',
      Source_line ''source/a/awscli-local/awscli-local-$pkgver.tar.gz'',
      Checksum_line ''SKIP'',
      Other_line ''build() {'']"

definition commented_checksum_descriptor :: string where
  "commented_checksum_descriptor =
     ''pkgver=1.0.0'' @ [nl] @ ''pkgrel=1'' @ [nl]
     @ ''#sha256sums=('' @ [sq] @ ''0000'' @ [sq] @ '')'' @ [nl]
     @ ''sha256sums=('' @ [sq] @ ''SKIP'' @ [sq] @ '')'' @ [nl]"

text \<open>
  A descriptor whose only checksum assignment is the sentinel, and a descriptor with
  a source assignment and no checksum assignment.
\<close>

definition sentinel_descriptor :: string where
  "sentinel_descriptor =
     ''pkgver=1.0.0'' @ [nl] @ ''pkgrel=3'' @ [nl]
     @ ''sha256sums=('' @ [sq] @ ''SKIP'' @ [sq] @ '')'' @ [nl]"

definition unchecked_source_descriptor :: string where
  "unchecked_source_descriptor =
     ''pkgver=1.0.0'' @ [nl] @ ''source=(awscli-local.tar.gz)'' @ [nl]"

text \<open>
  Environments of the checker: the index answers with a version and the output file
  can be written; and one whose output path cannot be opened.
\<close>

definition writable_env :: "string \<Rightarrow> string option \<Rightarrow> checker_env" where
  "writable_env latest out =
     \<lparr>index_latest = Fetched latest, github_output = out, append_error = (\<lambda>path. None)\<rparr>"


text \<open>
  A descriptor with a helper variable \<open>_pkgver\<close> before the version assignment, and a
  descriptor whose \<open>url\<close> is an empty quoted value, with a helper variable \<open>_url\<close>
  after it.
\<close>

definition shadowed_version_descriptor :: string where
  "shadowed_version_descriptor =
     ''pkgname=awscli-local'' @ [nl] @ ''_pkgver=1.0.0'' @ [nl] @ ''pkgver=2.0.0'' @ [nl]
     @ ''pkgrel=1'' @ [nl]"

definition shadowed_url_descriptor :: string where
  "shadowed_url_descriptor =
     ''pkgname=awscli-local'' @ [nl] @ ''pkgver=1.0.0'' @ [nl] @ ''pkgrel=1'' @ [nl]
     @ ''pkgdesc='' @ [dq] @ ''Thin wrapper'' @ [dq] @ [nl]
     @ ''url='' @ [dq, dq] @ [nl]
     @ ''_url='' @ [dq] @ ''https://example.org'' @ [dq] @ [nl]"

section \<open>Searching and occurrences\<close>

lemma prefix_append_short:
  "prefix p (x @ y) \<Longrightarrow> length p \<le> length x \<Longrightarrow> prefix p x"
  by (metis prefix_length_prefix prefixI)

lemma has_sub_iff: "has_sub p s \<longleftrightarrow> (\<exists>i\<le>length s. prefix p (drop i s))"
proof (induction s)
  case Nil
  then show ?case by simp
next
  case (Cons c cs)
  show ?case
  proof
    assume "has_sub p (c # cs)"
    then consider "prefix p (c # cs)" | "has_sub p cs" by auto
    then show "\<exists>i\<le>length (c # cs). prefix p (drop i (c # cs))"
    proof cases
      case 1
      then show ?thesis by (intro exI[of _ 0]) simp
    next
      case 2
      then obtain i where "i \<le> length cs" "prefix p (drop i cs)" using Cons.IH by auto
      then show ?thesis by (intro exI[of _ "Suc i"]) simp
    qed
  next
    assume "\<exists>i\<le>length (c # cs). prefix p (drop i (c # cs))"
    then obtain i where i: "i \<le> length (c # cs)" "prefix p (drop i (c # cs))" by auto
    show "has_sub p (c # cs)"
    proof (cases i)
      case 0
      then show ?thesis using i by simp
    next
      case (Suc j)
      then have "j \<le> length cs" "prefix p (drop j cs)" using i by auto
      then show ?thesis using Cons.IH by auto
    qed
  qed
qed

lemma occurrences_zero_iff: "occurrences p s = 0 \<longleftrightarrow> \<not> has_sub p s"
  by (induction s) auto

lemma re_search_None_iff:
  "re_search m s = None \<longleftrightarrow> (\<forall>i\<le>length s. m (drop i s) = None)"
proof (induction s)
  case Nil
  then show ?case by (auto split: option.splits)
next
  case (Cons c cs)
  have "(\<forall>i\<le>length (c # cs). m (drop i (c # cs)) = None) \<longleftrightarrow>
        m (c # cs) = None \<and> (\<forall>i\<le>length cs. m (drop i cs) = None)"
  proof safe
    fix i assume "\<forall>i\<le>length (c # cs). m (drop i (c # cs)) = None" "i \<le> length cs"
    then show "m (drop i cs) = None" by (metis Suc_le_mono drop_Suc_Cons length_Cons)
  next
    assume "\<forall>i\<le>length (c # cs). m (drop i (c # cs)) = None"
    then show "m (c # cs) = None" by (metis drop0 le0)
  next
    fix i assume "m (c # cs) = None" "\<forall>i\<le>length cs. m (drop i cs) = None" "i \<le> length (c # cs)"
    then show "m (drop i (c # cs)) = None" by (cases i) auto
  qed
  then show ?case using Cons.IH by (auto split: option.splits)
qed

lemma re_search_first:
  assumes "\<forall>i<length a. m (drop i (a @ t)) = None" and "m t = Some (g, n)"
  shows "re_search m (a @ t) = Some (length a, g, n)"
  using assms
proof (induction a)
  case Nil
  then show ?case by (cases t) auto
next
  case (Cons c a)
  have "m (c # a @ t) = None" using Cons.prems(1) by (metis append_Cons drop0 length_greater_0_conv list.distinct(1))
  moreover have "\<forall>i<length a. m (drop i (a @ t)) = None"
  proof (intro allI impI)
    fix i assume "i < length a"
    then have "m (drop (Suc i) ((c # a) @ t)) = None" using Cons.prems(1) by (metis Suc_less_eq length_Cons)
    then show "m (drop i (a @ t)) = None" by simp
  qed
  ultimately show ?case using Cons.IH Cons.prems(2) by simp
qed

lemma no_early_occurrence:
  assumes "\<not> has_sub key (pre @ butlast key)" and "i < length pre"
  shows "\<not> prefix key (drop i (pre @ key @ rest))"
proof
  assume pk: "prefix key (drop i (pre @ key @ rest))"
  have key: "key \<noteq> []" using assms by (cases key) (auto simp: has_sub_iff)
  have d: "drop i (pre @ key @ rest) = drop i (pre @ butlast key) @ [last key] @ rest"
    using assms(2) key by (simp add: append_butlast_last_id)
  have "length key \<le> length (drop i (pre @ butlast key))" using assms(2) key by (cases key) auto
  then have "prefix key (drop i (pre @ butlast key))" using pk d prefix_append_short by metis
  then have "has_sub key (pre @ butlast key)" using assms(2) by (auto simp: has_sub_iff intro!: exI[of _ i])
  then show False using assms(1) by simp
qed

lemma m_rest_of_line_prefix: "m_rest_of_line key s = Some (v, n) \<Longrightarrow> prefix key s"
  by (auto simp: m_rest_of_line_def split: if_splits)

lemma m_rest_of_line_value:
  assumes "nl \<notin> set X" and "X \<noteq> []" and "post = [] \<or> hd post = nl"
  shows "m_rest_of_line key (key @ X @ post) = Some (X, length key + length X)"
proof -
  have "takeWhile (\<lambda>c. c \<noteq> nl) (X @ post) = X"
    using assms(1,3) by (cases post) (auto simp: takeWhile_append2 takeWhile_tail)
  then show ?thesis using assms(2) by (simp add: m_rest_of_line_def)
qed

section \<open>Version Checker\<close>

lemma get_current_version_result:
  assumes "get_current_version p = (Some v, p')"
  shows "v \<noteq> [] \<and> p' = p"
proof -
  from assms obtain c i n where c: "files p ''PKGBUILD'' = Some c"
    and s: "re_search (m_rest_of_line ''pkgver='') c = Some (i, v, n)" and "p' = p"
    by (auto simp: get_current_version_def split: option.splits)
  have "\<And>m s. re_search m s = Some (i, v, n) \<Longrightarrow> \<exists>j. m (drop j s) = Some (v, n)"
  proof -
    fix m :: "string \<Rightarrow> (string \<times> nat) option" and s
    show "re_search m s = Some (i, v, n) \<Longrightarrow> \<exists>j. m (drop j s) = Some (v, n)"
    proof (induction s arbitrary: i)
      case Nil
      then show ?case by (auto split: option.splits)
    next
      case (Cons a s)
      show ?case
      proof (cases "m (a # s)")
        case None
        then obtain k where "re_search m s = Some (k, v, n)" using Cons.prems by (auto split: option.splits)
        then obtain j where "m (drop j s) = Some (v, n)" using Cons.IH by blast
        then show ?thesis by (intro exI[of _ "Suc j"]) simp
      next
        case (Some r)
        then have "m (drop 0 (a # s)) = Some (v, n)" using Cons.prems by (auto split: option.splits)
        then show ?thesis by blast
      qed
    qed
  qed
  from this[OF s] obtain j where "m_rest_of_line ''pkgver='' (drop j c) = Some (v, n)" by blast
  then have "v \<noteq> []" by (auto simp: m_rest_of_line_def Let_def split: if_splits)
  then show ?thesis using \<open>p' = p\<close> by simp
qed

text \<open>
  When the text of the descriptor has \<open>pkgver=X\<close> with \<open>X\<close> the rest of that line (not
  empty, ended by a line feed or by the end of the text), and no \<open>pkgver=\<close> stands
  before it, the checker extracts exactly \<open>X\<close>, and prints nothing.
\<close>

lemma first_version_line_extracted:
  assumes "files p ''PKGBUILD'' = Some (pre @ ''pkgver='' @ X @ post)"
    and "X \<noteq> []" and "nl \<notin> set X" and "post = [] \<or> hd post = nl"
    and "\<not> has_sub ''pkgver='' (pre @ ''pkgver'')"
  shows "get_current_version p = (Some X, p)"
proof -
  let ?m = "m_rest_of_line ''pkgver=''"
  have early: "\<forall>i<length pre. ?m (drop i (pre @ ''pkgver='' @ X @ post)) = None"
  proof (intro allI impI)
    fix i assume i: "i < length pre"
    have "\<not> prefix ''pkgver='' (drop i (pre @ ''pkgver='' @ (X @ post)))"
      using no_early_occurrence[of "''pkgver=''" pre i "X @ post"] assms(5) i by simp
    then show "?m (drop i (pre @ ''pkgver='' @ X @ post)) = None"
      by (cases "?m (drop i (pre @ ''pkgver='' @ X @ post))") (auto dest: m_rest_of_line_prefix)
  qed
  have here: "?m (''pkgver='' @ X @ post) = Some (X, length ''pkgver='' + length X)"
    using m_rest_of_line_value[OF assms(3,2,4)] .
  have "re_search ?m (pre @ ''pkgver='' @ X @ post) = Some (length pre, X, length ''pkgver='' + length X)"
    using re_search_first[OF early here] .
  then show ?thesis using assms(1) by (simp add: get_current_version_def)
qed

lemma first_version_line_extracted_instance:
  "get_current_version
     \<lparr>files = [''PKGBUILD'' \<mapsto> ''pkgname=awscli-local'' @ [nl] @ ''pkgver=1.0.0'' @ [nl] @ ''pkgrel=1'' @ [nl]],
      console = [], requested = []\<rparr>
   = (Some ''1.0.0'',
      \<lparr>files = [''PKGBUILD'' \<mapsto> ''pkgname=awscli-local'' @ [nl] @ ''pkgver=1.0.0'' @ [nl] @ ''pkgrel=1'' @ [nl]],
       console = [], requested = []\<rparr>)"
  using first_version_line_extracted[of
      "\<lparr>files = [''PKGBUILD'' \<mapsto> ''pkgname=awscli-local'' @ [nl] @ ''pkgver=1.0.0'' @ [nl] @ ''pkgrel=1'' @ [nl]],
        console = [], requested = []\<rparr>"
      "''pkgname=awscli-local'' @ [nl]" "''1.0.0''" "[nl] @ ''pkgrel=1'' @ [nl]"]
  by simp

text \<open>
  C5. The descriptor sets a helper variable \<open>_pkgver=1.0.0\<close> on the line before its
  version assignment \<open>pkgver=2.0.0\<close>. The search for \<open>pkgver=(.+)\<close> is not tied to the
  start of a line: its first match is inside \<open>_pkgver=1.0.0\<close>, and the checker returns
  \<open>1.0.0\<close> as the current version, not the \<open>2.0.0\<close> of the assignment.
\<close>

theorem helper_variable_shadows_version:
  "has_sub ([nl] @ ''pkgver=2.0.0'' @ [nl]) shadowed_version_descriptor \<and>
   get_current_version (proc_of shadowed_version_descriptor)
     = (Some ''1.0.0'', proc_of shadowed_version_descriptor)"
  by (simp add: get_current_version_def proc_of_def shadowed_version_descriptor_def m_rest_of_line_def)

lemma get_current_version_None_iff:
  "fst (get_current_version p) = None \<longleftrightarrow>
     (case files p ''PKGBUILD'' of
        None \<Rightarrow> True
      | Some c \<Rightarrow> re_search (m_rest_of_line ''pkgver='') c = None)"
  by (auto simp: get_current_version_def split: option.splits)

lemma print_simps [simp]:
  "console (print l p) = console p @ [l]" "files (print l p) = files p"
  "requested (print l p) = requested p"
  by (simp_all add: print_def)

lemma request_simps [simp]:
  "console (request u p) = console p" "files (request u p) = files p"
  "requested (request u p) = requested p @ [u]"
  by (simp_all add: request_def)

lemma set_github_output_writable:
  assumes "output_writable e"
  shows "set_github_output e k v p =
     Inr (print (''Output: '' @ k @ ''='' @ v)
            (case github_output e of
               None \<Rightarrow> p
             | Some path \<Rightarrow>
                 if path = [] then p
                 else p\<lparr>files := (files p)(path \<mapsto>
                          (case files p path of None \<Rightarrow> [] | Some old \<Rightarrow> old) @ k @ ''='' @ v @ [nl])\<rparr>))"
  using assms
  by (auto simp: set_github_output_def append_file_def output_writable_def split: option.splits)

lemma set_github_output_unwritable:
  assumes "\<not> output_writable e"
  shows "set_github_output e k v p = Inl (OSError (the (append_error e (the (github_output e)))))"
  using assms
  by (auto simp: set_github_output_def append_file_def output_writable_def split: option.splits)

lemma output_state_simps:
  "console (case go of None \<Rightarrow> p | Some path \<Rightarrow> if path = [] then p else p\<lparr>files := F path\<rparr>)
     = console p"
  "requested (case go of None \<Rightarrow> p | Some path \<Rightarrow> if path = [] then p else p\<lparr>files := F path\<rparr>)
     = requested p"
  "files (case go of None \<Rightarrow> p | Some path \<Rightarrow> if path = [] then p else p\<lparr>files := F path\<rparr>)
     = (case go of None \<Rightarrow> files p | Some path \<Rightarrow> if path = [] then files p else F path)"
  by (simp_all split: option.splits)

text \<open>
  The run of \<open>main\<close> once both versions are there: with an output file that can be
  written it goes through the three outputs and exits with 0; with one that cannot,
  the first output raises and the run ends with 1 after the three lines on the
  console, the files as they were.
\<close>

lemma checker_main_versions:
  assumes "get_current_version p = (Some cur, p1)"
    and "index_latest e = Fetched lat" and "lat \<noteq> []"
  shows "output_writable e \<Longrightarrow>
           fst (checker_main e p) = 0 \<and>
           console (snd (checker_main e p)) =
             console p @
             [''Current version: '' @ cur, ''Latest version: '' @ lat,
              ''Needs update: '' @ (if cur = lat then ''False'' else ''True''),
              ''Output: current_version='' @ cur, ''Output: latest_version='' @ lat,
              ''Output: needs_update='' @ (if cur = lat then ''false'' else ''true''),
              (if cur = lat then check_mark @ '' Already up to date''
               else check_mark @ '' Update available: '' @ cur @ '' '' @ arrow @ '' '' @ lat)] \<and>
           requested (snd (checker_main e p)) = requested p @ [''https://pypi.org/pypi/awscli-local/json''] \<and>
           (\<forall>path. github_output e = Some path \<and> path \<noteq> [] \<longrightarrow>
              files (snd (checker_main e p)) path =
                Some ((case files p path of None \<Rightarrow> [] | Some old \<Rightarrow> old)
                      @ ''current_version='' @ cur @ [nl]
                      @ ''latest_version='' @ lat @ [nl]
                      @ ''needs_update='' @ (if cur = lat then ''false'' else ''true'') @ [nl]))"
    and "\<not> output_writable e \<Longrightarrow>
           fst (checker_main e p) = 1 \<and>
           console (snd (checker_main e p)) =
             console p @
             [''Current version: '' @ cur, ''Latest version: '' @ lat,
              ''Needs update: '' @ (if cur = lat then ''False'' else ''True'')] \<and>
           requested (snd (checker_main e p)) = requested p @ [''https://pypi.org/pypi/awscli-local/json''] \<and>
           files (snd (checker_main e p)) = files p"
proof -
  have c: "cur \<noteq> []" and p1: "p1 = p" using get_current_version_result[OF assms(1)] by auto
  show "output_writable e \<Longrightarrow>
           fst (checker_main e p) = 0 \<and>
           console (snd (checker_main e p)) =
             console p @
             [''Current version: '' @ cur, ''Latest version: '' @ lat,
              ''Needs update: '' @ (if cur = lat then ''False'' else ''True''),
              ''Output: current_version='' @ cur, ''Output: latest_version='' @ lat,
              ''Output: needs_update='' @ (if cur = lat then ''false'' else ''true''),
              (if cur = lat then check_mark @ '' Already up to date''
               else check_mark @ '' Update available: '' @ cur @ '' '' @ arrow @ '' '' @ lat)] \<and>
           requested (snd (checker_main e p)) = requested p @ [''https://pypi.org/pypi/awscli-local/json''] \<and>
           (\<forall>path. github_output e = Some path \<and> path \<noteq> [] \<longrightarrow>
              files (snd (checker_main e p)) path =
                Some ((case files p path of None \<Rightarrow> [] | Some old \<Rightarrow> old)
                      @ ''current_version='' @ cur @ [nl]
                      @ ''latest_version='' @ lat @ [nl]
                      @ ''needs_update='' @ (if cur = lat then ''false'' else ''true'') @ [nl]))"
    using assms c p1
    by (simp add: checker_main_def get_latest_version_def Let_def set_github_output_writable
        output_state_simps)
  show "\<not> output_writable e \<Longrightarrow>
           fst (checker_main e p) = 1 \<and>
           console (snd (checker_main e p)) =
             console p @
             [''Current version: '' @ cur, ''Latest version: '' @ lat,
              ''Needs update: '' @ (if cur = lat then ''False'' else ''True'')] \<and>
           requested (snd (checker_main e p)) = requested p @ [''https://pypi.org/pypi/awscli-local/json''] \<and>
           files (snd (checker_main e p)) = files p"
    using assms c p1
    by (simp add: checker_main_def get_latest_version_def Let_def set_github_output_unwritable)
qed

text \<open>
  C4. When both versions are obtained and the output file can be written, the
  checker exits with 0; it prints both versions and the three outputs
  \<open>current_version\<close>, \<open>latest_version\<close> and \<open>needs_update\<close>, and appends them to the
  file that \<open>GITHUB_OUTPUT\<close> names; \<open>needs_update\<close> is \<open>false\<close> when the two strings
  are equal and \<open>true\<close> for any other pair (no ordering of versions, no folding of
  case).
\<close>

theorem needs_update_iff_versions_differ:
  assumes "get_current_version p = (Some cur, p1)"
    and "index_latest e = Fetched lat" and "lat \<noteq> []"
    and "output_writable e"
  shows "fst (checker_main e p) = 0 \<and>
         console (snd (checker_main e p)) =
           console p @
           [''Current version: '' @ cur, ''Latest version: '' @ lat,
            ''Needs update: '' @ (if cur = lat then ''False'' else ''True''),
            ''Output: current_version='' @ cur, ''Output: latest_version='' @ lat,
            ''Output: needs_update='' @ (if cur = lat then ''false'' else ''true''),
            (if cur = lat then check_mark @ '' Already up to date''
             else check_mark @ '' Update available: '' @ cur @ '' '' @ arrow @ '' '' @ lat)] \<and>
         (\<forall>path. github_output e = Some path \<and> path \<noteq> [] \<longrightarrow>
            files (snd (checker_main e p)) path =
              Some ((case files p path of None \<Rightarrow> [] | Some old \<Rightarrow> old)
                    @ ''current_version='' @ cur @ [nl]
                    @ ''latest_version='' @ lat @ [nl]
                    @ ''needs_update='' @ (if cur = lat then ''false'' else ''true'') @ [nl]))"
  using checker_main_versions(1)[OF assms(1,2,3,4)] by blast

lemma sample_current_version: "get_current_version sample_proc = (Some ''1.0.0'', sample_proc)"
  by (simp add: get_current_version_def sample_proc_def sample_descriptor_def m_rest_of_line_def)

lemma writable_env_simps:
  "index_latest (writable_env lat out) = Fetched lat" "github_output (writable_env lat out) = out"
  "output_writable (writable_env lat out)"
  by (simp_all add: writable_env_def output_writable_def split: option.splits)

theorem needs_update_iff_versions_differ_witness:
  "fst (checker_main (writable_env ''0.9.0'' (Some ''out'')) sample_proc) = 0 \<and>
   console (snd (checker_main (writable_env ''0.9.0'' (Some ''out'')) sample_proc)) =
     [''Current version: 1.0.0'', ''Latest version: 0.9.0'', ''Needs update: True'',
      ''Output: current_version=1.0.0'', ''Output: latest_version=0.9.0'',
      ''Output: needs_update=true'',
      check_mark @ '' Update available: 1.0.0 '' @ arrow @ '' 0.9.0''] \<and>
   files (snd (checker_main (writable_env ''0.9.0'' (Some ''out'')) sample_proc)) ''out'' =
     Some (''current_version=1.0.0'' @ [nl] @ ''latest_version=0.9.0'' @ [nl] @ ''needs_update=true'' @ [nl])"
proof -
  have f: "files sample_proc ''out'' = None" "console sample_proc = []"
    by (simp_all add: sample_proc_def)
  show ?thesis
    using needs_update_iff_versions_differ[OF sample_current_version,
        of "writable_env ''0.9.0'' (Some ''out'')" "''0.9.0''"] f
    by (simp add: writable_env_simps)
qed




section \<open>Metadata Regenerator\<close>

lemma extract_field_fst:
  "fst (extract_field m pat c p) = (case re_search m c of Some (i, v, n) \<Rightarrow> Some v | None \<Rightarrow> None)"
  by (simp add: extract_field_def split: option.splits)

lemma extract_field_files [simp]: "files (snd (extract_field m pat c p)) = files p"
  by (simp add: extract_field_def split: option.splits)

lemma extract_field_requested [simp]: "requested (snd (extract_field m pat c p)) = requested p"
  by (simp add: extract_field_def split: option.splits)

lemma parse_pkgbuild_files [simp]: "files (snd (parse_pkgbuild p)) = files p"
  by (simp add: parse_pkgbuild_def Let_def split: option.splits prod.splits)
     (metis extract_field_files snd_conv)

lemma parse_pkgbuild_fst_cong:
  assumes "files p ''PKGBUILD'' = files q ''PKGBUILD''"
  shows "fst (parse_pkgbuild p) = fst (parse_pkgbuild q)"
proof (cases "files q ''PKGBUILD''")
  case None
  then show ?thesis using assms by (simp add: parse_pkgbuild_def)
next
  case (Some c)
  have e: "\<And>m pat r r'. fst (extract_field m pat c r) = fst (extract_field m pat c r')"
    by (simp add: extract_field_fst)
  show ?thesis
    using assms Some
    apply (simp add: parse_pkgbuild_def Let_def split: prod.splits)
    apply (intro allI impI conjI)
    apply (metis e fst_conv)+
    done
qed


lemma join_snoc: "xs \<noteq> [] \<Longrightarrow> join sep (xs @ [y]) = join sep xs @ sep @ y"
  by (induction sep xs rule: join.induct) auto

lemma generate_srcinfo_trailer:
  "suffix ([nl, nl] @ ''pkgname = '' @ pkgname info @ [nl]) (generate_srcinfo info)"
proof -
  define front where "front =
     [''pkgbase = '' @ pkgname info,
      tab @ ''pkgdesc = '' @ pkgdesc info,
      tab @ ''pkgver = '' @ pkgver info,
      tab @ ''pkgrel = '' @ pkgrel info,
      tab @ ''url = '' @ pkgurl info]
     @ map (\<lambda>a. tab @ ''arch = '' @ a) (arch info)
     @ map (\<lambda>l. tab @ ''license = '' @ l) (license info)
     @ map (\<lambda>d. tab @ ''depends = '' @ d) (depends info)
     @ map (\<lambda>d. tab @ ''makedepends = '' @ d) (makedepends info)"
  have ne: "front \<noteq> []" "front @ [[]] \<noteq> []" by (simp_all add: front_def)
  have "srcinfo_lines info = (front @ [[]]) @ [''pkgname = '' @ pkgname info]"
    by (simp add: srcinfo_lines_def front_def)
  then have "generate_srcinfo info =
      join [nl] front @ [nl] @ [] @ [nl] @ (''pkgname = '' @ pkgname info) @ [nl]"
    unfolding generate_srcinfo_def using join_snoc[OF ne(2)] join_snoc[OF ne(1)] by simp
  then have "generate_srcinfo info = join [nl] front @ ([nl, nl] @ ''pkgname = '' @ pkgname info @ [nl])"
    by simp
  then show ?thesis unfolding suffix_def by blast
qed

lemma regenerator_main_cases:
  "regenerator_main werr p =
     (case fst (parse_pkgbuild (print ''Generating .SRCINFO from PKGBUILD...'' p)) of
        None \<Rightarrow> (1, snd (parse_pkgbuild (print ''Generating .SRCINFO from PKGBUILD...'' p)))
      | Some info \<Rightarrow>
          (case werr ''.SRCINFO'' of
             Some msg \<Rightarrow> (1, print (''ERROR: Failed to write .SRCINFO: '' @ msg)
                              (snd (parse_pkgbuild (print ''Generating .SRCINFO from PKGBUILD...'' p))))
           | None \<Rightarrow>
               (0, print (check_mark @ '' .SRCINFO generated successfully'')
                     ((snd (parse_pkgbuild (print ''Generating .SRCINFO from PKGBUILD...'' p)))
                        \<lparr>files := (files p)(''.SRCINFO'' \<mapsto> generate_srcinfo info)\<rparr>))))"
proof -
  have "files (snd (parse_pkgbuild (print ''Generating .SRCINFO from PKGBUILD...'' p))) = files p"
    by simp
  then show ?thesis
    by (cases "parse_pkgbuild (print ''Generating .SRCINFO from PKGBUILD...'' p)")
       (simp add: regenerator_main_def split: option.splits)
qed

lemma regenerator_main_files:
  "files (snd (regenerator_main werr p)) =
     (case fst (parse_pkgbuild p) of
        None \<Rightarrow> files p
      | Some info \<Rightarrow>
          (case werr ''.SRCINFO'' of
             Some msg \<Rightarrow> files p
           | None \<Rightarrow> (files p)(''.SRCINFO'' \<mapsto> generate_srcinfo info)))"
proof -
  have "fst (parse_pkgbuild (print ''Generating .SRCINFO from PKGBUILD...'' p)) = fst (parse_pkgbuild p)"
    by (rule parse_pkgbuild_fst_cong) simp
  then show ?thesis by (simp add: regenerator_main_cases split: option.splits)
qed

lemma regenerator_main_status:
  "fst (regenerator_main werr p) =
     (case fst (parse_pkgbuild p) of
        None \<Rightarrow> 1
      | Some info \<Rightarrow> (case werr ''.SRCINFO'' of Some msg \<Rightarrow> 1 | None \<Rightarrow> 0))"
proof -
  have "fst (parse_pkgbuild (print ''Generating .SRCINFO from PKGBUILD...'' p)) = fst (parse_pkgbuild p)"
    by (rule parse_pkgbuild_fst_cong) simp
  then show ?thesis by (simp add: regenerator_main_cases split: option.splits)
qed

text \<open>
  C9. The derived file is a function of the descriptor's text: a second run, on the
  state the first run left, ends with the same exit status and leaves every file as
  the first run left it, byte for byte. What a successful run writes is
  \<open>generate_srcinfo\<close> of the parsed descriptor, which ends with an empty line, the
  \<open>pkgname\<close> line and a line feed.
\<close>

theorem regenerator_deterministic:
  "fst (regenerator_main werr (snd (regenerator_main werr p))) = fst (regenerator_main werr p) \<and>
   files (snd (regenerator_main werr (snd (regenerator_main werr p))))
     = files (snd (regenerator_main werr p)) \<and>
   (fst (regenerator_main werr p) = 0 \<longrightarrow>
      (\<exists>info. fst (parse_pkgbuild p) = Some info \<and>
         files (snd (regenerator_main werr p)) ''.SRCINFO'' = Some (generate_srcinfo info) \<and>
         suffix ([nl, nl] @ ''pkgname = '' @ pkgname info @ [nl]) (generate_srcinfo info)))"
proof -
  let ?q = "snd (regenerator_main werr p)"
  have "files ?q ''PKGBUILD'' = files p ''PKGBUILD''"
    by (simp add: regenerator_main_files split: option.splits)
  then have same: "fst (parse_pkgbuild ?q) = fst (parse_pkgbuild p)"
    by (rule parse_pkgbuild_fst_cong)
  have 1: "fst (regenerator_main werr ?q) = fst (regenerator_main werr p)"
    by (simp add: regenerator_main_status[of werr ?q] same regenerator_main_status[of werr p])
  have 2: "files (snd (regenerator_main werr ?q)) = files ?q"
    by (simp add: regenerator_main_files[of werr ?q] same)
       (simp add: regenerator_main_files[of werr p] split: option.splits)
  have 3: "fst (regenerator_main werr p) = 0 \<longrightarrow>
      (\<exists>info. fst (parse_pkgbuild p) = Some info \<and>
         files (snd (regenerator_main werr p)) ''.SRCINFO'' = Some (generate_srcinfo info) \<and>
         suffix ([nl, nl] @ ''pkgname = '' @ pkgname info @ [nl]) (generate_srcinfo info))"
    using generate_srcinfo_trailer
    by (auto simp: regenerator_main_status regenerator_main_files split: option.splits)
  show ?thesis using 1 2 3 by blast
qed

lemma parse_empty_depends:
  "fst (parse_pkgbuild (proc_of empty_depends_descriptor)) =
     Some \<lparr>pkgname = ''awscli-local'', pkgver = ''1.0.0'', pkgrel = ''1'',
           pkgdesc = ''Thin wrapper'', pkgurl = ''https://example.org'',
           arch = [''any''], license = [''Apache''],
           depends = [''python-setuptools''], makedepends = [''python-setuptools'']\<rparr>"
  by (simp add: parse_pkgbuild_def proc_of_def empty_depends_descriptor_def extract_field_def
      extract_array_def m_nonspace_def m_dquoted_def m_array_def m_item_def is_space_def
      first_nonempty_def truthy_def Let_def print_def)


theorem regenerator_deterministic_witness:
  "fst (regenerator_main (\<lambda>path. None) (proc_of empty_depends_descriptor)) = 0 \<and>
   fst (regenerator_main (\<lambda>path. None)
          (snd (regenerator_main (\<lambda>path. None) (proc_of empty_depends_descriptor)))) = 0 \<and>
   files (snd (regenerator_main (\<lambda>path. None)
          (snd (regenerator_main (\<lambda>path. None) (proc_of empty_depends_descriptor)))))
     = files (snd (regenerator_main (\<lambda>path. None) (proc_of empty_depends_descriptor))) \<and>
   (\<exists>info. files (snd (regenerator_main (\<lambda>path. None) (proc_of empty_depends_descriptor))) ''.SRCINFO''
             = Some (generate_srcinfo info) \<and>
           suffix ([nl, nl] @ ''pkgname = awscli-local'' @ [nl]) (generate_srcinfo info))"
proof -
  have z: "fst (regenerator_main (\<lambda>path. None) (proc_of empty_depends_descriptor)) = 0"
    by (simp add: regenerator_main_status parse_empty_depends)
  show ?thesis
    using regenerator_deterministic[of "\<lambda>path. None" "proc_of empty_depends_descriptor"] z
      parse_empty_depends
    by auto
qed

text \<open>
  C6. The descriptor has \<open>arch=()\<close>, \<open>depends=()\<close> and one build dependency. The
  derived file has the line \<open>arch = any\<close>, as the claim says; but it also has a
  \<open>depends\<close> line: the search for \<open>depends=\(([^)]+)\)\<close> does not match the empty
  array and goes on to the text \<open>depends=(\<close> inside \<open>makedepends=(\<close>, so the
  build dependency is rendered as a run-time dependency too.
\<close>

theorem empty_depends_rendered_from_makedepends:
  "files (snd (regenerator_main (\<lambda>path. None) (proc_of empty_depends_descriptor))) ''.SRCINFO'' =
     Some (''pkgbase = awscli-local'' @ [nl]
           @ tab @ ''pkgdesc = Thin wrapper'' @ [nl]
           @ tab @ ''pkgver = 1.0.0'' @ [nl]
           @ tab @ ''pkgrel = 1'' @ [nl]
           @ tab @ ''url = https://example.org'' @ [nl]
           @ tab @ ''arch = any'' @ [nl]
           @ tab @ ''license = Apache'' @ [nl]
           @ tab @ ''depends = python-setuptools'' @ [nl]
           @ tab @ ''makedepends = python-setuptools'' @ [nl]
           @ [nl]
           @ ''pkgname = awscli-local'' @ [nl])"
  by (simp add: regenerator_main_files parse_empty_depends generate_srcinfo_def srcinfo_lines_def)

lemma occurrences_one_unique:
  assumes "occurrences p s = 1" and "i \<le> length s" and "j \<le> length s"
    and "prefix p (drop i s)" and "prefix p (drop j s)"
  shows "i = j"
  using assms
proof (induction s arbitrary: i j)
  case Nil
  then show ?case by simp
next
  case (Cons c cs)
  show ?case
  proof (cases "prefix p (c # cs)")
    case True
    then have "occurrences p cs = 0" using Cons.prems(1) by simp
    then have none: "\<And>k. k \<le> length cs \<Longrightarrow> \<not> prefix p (drop k cs)"
      by (auto simp: occurrences_zero_iff has_sub_iff)
    have "i = 0"
    proof (cases i)
      case (Suc k)
      then show ?thesis using none[of k] Cons.prems(2,4) by simp
    qed simp
    moreover have "j = 0"
    proof (cases j)
      case (Suc k)
      then show ?thesis using none[of k] Cons.prems(3,5) by simp
    qed simp
    ultimately show ?thesis by simp
  next
    case False
    then have one: "occurrences p cs = 1" using Cons.prems(1) by simp
    obtain i' where i: "i = Suc i'" using False Cons.prems(4) by (cases i) auto
    obtain j' where j: "j = Suc j'" using False Cons.prems(5) by (cases j) auto
    have "i' = j'" using Cons.IH[OF one, of i' j'] Cons.prems(2-5) i j by simp
    then show ?thesis using i j by simp
  qed
qed

lemma m_dquoted_prefix: "m_dquoted key s = Some r \<Longrightarrow> prefix key s"
  by (auto simp: m_dquoted_def split: if_splits)

lemma m_dquoted_empty_value: "m_dquoted key (key @ dq # b) = None"
  by (simp add: m_dquoted_def)

lemma no_dquoted_match:
  assumes "\<not> has_sub key content \<or>
           (\<exists>a b. content = a @ key @ [dq] @ b \<and> occurrences key content = 1)"
  shows "re_search (m_dquoted key) content = None"
proof -
  have "m_dquoted key (drop i content) = None" if i: "i \<le> length content" for i
  proof (cases "prefix key (drop i content)")
    case False
    then show ?thesis by (cases "m_dquoted key (drop i content)") (auto dest: m_dquoted_prefix)
  next
    case True
    then have "has_sub key content" using i by (auto simp: has_sub_iff)
    then obtain a b where c: "content = a @ key @ [dq] @ b" and o: "occurrences key content = 1"
      using assms by blast
    have "prefix key (drop (length a) content)" "length a \<le> length content" using c by simp_all
    then have "i = length a" using occurrences_one_unique[OF o i _ True] by simp
    then show ?thesis using c m_dquoted_empty_value by simp
  qed
  then show ?thesis by (simp add: re_search_None_iff)
qed

lemma parse_pkgbuild_fst:
  assumes "files p ''PKGBUILD'' = Some content"
  shows "fst (parse_pkgbuild p) =
     (let name = map_option (fst \<circ> snd) (re_search (m_nonspace ''pkgname='') content);
          ver = map_option (fst \<circ> snd) (re_search (m_nonspace ''pkgver='') content);
          rel = map_option (fst \<circ> snd) (re_search (m_nonspace ''pkgrel='') content);
          desc = map_option (fst \<circ> snd) (re_search (m_dquoted (''pkgdesc='' @ [dq])) content);
          u = map_option (fst \<circ> snd) (re_search (m_dquoted (''url='' @ [dq])) content)
      in if \<not> (truthy name \<and> truthy ver \<and> truthy rel \<and> truthy desc \<and> truthy u) then None
         else Some \<lparr>pkgname = the name, pkgver = the ver, pkgrel = the rel,
                    pkgdesc = the desc, pkgurl = the u,
                    arch = (if extract_array ''arch=('' content = [] then [''any'']
                            else extract_array ''arch=('' content),
                    license = (if extract_array ''license=('' content = [] then [''unknown'']
                               else extract_array ''license=('' content),
                    depends = extract_array ''depends=('' content,
                    makedepends = extract_array ''makedepends=('' content\<rparr>)"
proof -
  have e: "\<And>m pat r. extract_field m pat content r =
      (map_option (fst \<circ> snd) (re_search m content), snd (extract_field m pat content r))"
    by (auto simp: extract_field_def split: option.splits)
  obtain p1 where 1: "extract_field (m_nonspace ''pkgname='') (''pkgname=([^'' @ [CHR 0x5C] @ ''s]+)'') content p
      = (map_option (fst \<circ> snd) (re_search (m_nonspace ''pkgname='') content), p1)"
    using e by blast
  obtain p2 where 2: "extract_field (m_nonspace ''pkgver='') (''pkgver=([^'' @ [CHR 0x5C] @ ''s]+)'') content p1
      = (map_option (fst \<circ> snd) (re_search (m_nonspace ''pkgver='') content), p2)"
    using e by blast
  obtain p3 where 3: "extract_field (m_nonspace ''pkgrel='') (''pkgrel=([^'' @ [CHR 0x5C] @ ''s]+)'') content p2
      = (map_option (fst \<circ> snd) (re_search (m_nonspace ''pkgrel='') content), p3)"
    using e by blast
  obtain p4 where 4: "extract_field (m_dquoted (''pkgdesc='' @ [dq]))
        (''pkgdesc='' @ [dq] @ ''([^'' @ [dq] @ '']+)'' @ [dq]) content p3
      = (map_option (fst \<circ> snd) (re_search (m_dquoted (''pkgdesc='' @ [dq])) content), p4)"
    using e by blast
  obtain p5 where 5: "extract_field (m_dquoted (''url='' @ [dq]))
        (''url='' @ [dq] @ ''([^'' @ [dq] @ '']+)'' @ [dq]) content p4
      = (map_option (fst \<circ> snd) (re_search (m_dquoted (''url='' @ [dq])) content), p5)"
    using e by blast
  show ?thesis
    unfolding parse_pkgbuild_def Let_def using assms 1 2 3 4 5 by simp
qed

lemma parse_pkgbuild_missing_field:
  assumes "files p ''PKGBUILD'' = Some content"
    and "re_search (m_dquoted (''pkgdesc='' @ [dq])) content = None \<or>
         re_search (m_dquoted (''url='' @ [dq])) content = None"
  shows "fst (parse_pkgbuild p) = None"
  using assms(2) unfolding parse_pkgbuild_fst[OF assms(1)] Let_def
  by (auto simp: truthy_def)


text \<open>
  A descriptor whose only \<open>pkgdesc="\<close> (or \<open>url="\<close>) is followed at once by the closing
  quote is treated as one without the field: the pattern finds no match, the
  regenerator reports the required field as missing, exits with 1 and writes nothing.
\<close>

lemma only_empty_quoted_field_rejected:
  assumes "files p ''PKGBUILD'' = Some content"
    and "key = ''pkgdesc='' @ [dq] \<or> key = ''url='' @ [dq]"
    and "\<not> has_sub key content \<or>
         (\<exists>a b. content = a @ key @ [dq] @ b \<and> occurrences key content = 1)"
  shows "re_search (m_dquoted key) content = None \<and>
         fst (regenerator_main werr p) = 1 \<and>
         files (snd (regenerator_main werr p)) = files p"
proof -
  have n: "re_search (m_dquoted key) content = None" using no_dquoted_match[OF assms(3)] .
  then have "fst (parse_pkgbuild p) = None"
    using parse_pkgbuild_missing_field[OF assms(1)] assms(2) by auto
  then show ?thesis using n by (simp add: regenerator_main_status regenerator_main_files)
qed

lemma only_empty_quoted_field_rejected_instance:
  "fst (regenerator_main (\<lambda>path. None) (proc_of empty_pkgdesc_descriptor)) = 1 \<and>
   files (snd (regenerator_main (\<lambda>path. None) (proc_of empty_pkgdesc_descriptor)))
     = files (proc_of empty_pkgdesc_descriptor) \<and>
   fst (regenerator_main (\<lambda>path. None) (proc_of sample_descriptor)) = 1 \<and>
   files (snd (regenerator_main (\<lambda>path. None) (proc_of sample_descriptor)))
     = files (proc_of sample_descriptor)"
proof -
  have f: "files (proc_of empty_pkgdesc_descriptor) ''PKGBUILD'' = Some empty_pkgdesc_descriptor"
    "files (proc_of sample_descriptor) ''PKGBUILD'' = Some sample_descriptor"
    by (simp_all add: proc_of_def)
  have d: "empty_pkgdesc_descriptor =
      (''pkgname=awscli-local'' @ [nl] @ ''pkgver=1.0.0'' @ [nl] @ ''pkgrel=1'' @ [nl])
      @ (''pkgdesc='' @ [dq]) @ [dq]
      @ ([nl] @ ''url='' @ [dq] @ ''https://example.org'' @ [dq] @ [nl])"
    by (simp add: empty_pkgdesc_descriptor_def)
  have o: "occurrences (''pkgdesc='' @ [dq]) empty_pkgdesc_descriptor = 1"
    by (simp add: empty_pkgdesc_descriptor_def)
  have a: "\<not> has_sub (''url='' @ [dq]) sample_descriptor"
    by (simp add: sample_descriptor_def)
  have 1: "\<not> has_sub (''pkgdesc='' @ [dq]) empty_pkgdesc_descriptor \<or>
      (\<exists>a b. empty_pkgdesc_descriptor = a @ (''pkgdesc='' @ [dq]) @ [dq] @ b \<and>
             occurrences (''pkgdesc='' @ [dq]) empty_pkgdesc_descriptor = 1)"
    using d o by blast
  show ?thesis
    using only_empty_quoted_field_rejected[OF f(1) _ 1, of "\<lambda>path. None"]
      only_empty_quoted_field_rejected[OF f(2), of "''url='' @ [dq]" "\<lambda>path. None"] a
    by simp
qed

lemma parse_shadowed_url:
  "fst (parse_pkgbuild (proc_of shadowed_url_descriptor)) =
     Some \<lparr>pkgname = ''awscli-local'', pkgver = ''1.0.0'', pkgrel = ''1'',
           pkgdesc = ''Thin wrapper'', pkgurl = ''https://example.org'',
           arch = [''any''], license = [''unknown''],
           depends = [], makedepends = []\<rparr>"
  by (simp add: parse_pkgbuild_def proc_of_def shadowed_url_descriptor_def extract_field_def
      extract_array_def m_nonspace_def m_dquoted_def m_array_def m_item_def is_space_def
      first_nonempty_def truthy_def Let_def print_def)

text \<open>
  C10. The descriptor has \<open>url=""\<close>, an empty quoted value, and on the next line a
  helper variable \<open>_url="https://example.org"\<close>. The search for \<open>url="([^"]+)"\<close> is not
  tied to the start of a line: it finds no match at the empty value and goes on to
  the text \<open>url="\<close> inside \<open>_url="\<close>. No required field is reported as missing, the
  regenerator exits with 0 and writes the derived file, with the value of the helper
  variable as the URL.
\<close>

theorem empty_url_taken_from_helper_variable:
  "has_sub ([nl] @ ''url='' @ [dq, dq] @ [nl]) shadowed_url_descriptor \<and>
   fst (regenerator_main (\<lambda>path. None) (proc_of shadowed_url_descriptor)) = 0 \<and>
   files (snd (regenerator_main (\<lambda>path. None) (proc_of shadowed_url_descriptor))) ''.SRCINFO'' =
     Some (''pkgbase = awscli-local'' @ [nl]
           @ tab @ ''pkgdesc = Thin wrapper'' @ [nl]
           @ tab @ ''pkgver = 1.0.0'' @ [nl]
           @ tab @ ''pkgrel = 1'' @ [nl]
           @ tab @ ''url = https://example.org'' @ [nl]
           @ tab @ ''arch = any'' @ [nl]
           @ tab @ ''license = unknown'' @ [nl]
           @ [nl]
           @ ''pkgname = awscli-local'' @ [nl])"
proof -
  have h: "has_sub ([nl] @ ''url='' @ [dq, dq] @ [nl]) shadowed_url_descriptor"
    by (simp add: shadowed_url_descriptor_def)
  have z: "fst (regenerator_main (\<lambda>path. None) (proc_of shadowed_url_descriptor)) = 0"
    by (simp add: regenerator_main_status parse_shadowed_url)
  have f: "files (snd (regenerator_main (\<lambda>path. None) (proc_of shadowed_url_descriptor))) ''.SRCINFO'' =
     Some (''pkgbase = awscli-local'' @ [nl]
           @ tab @ ''pkgdesc = Thin wrapper'' @ [nl]
           @ tab @ ''pkgver = 1.0.0'' @ [nl]
           @ tab @ ''pkgrel = 1'' @ [nl]
           @ tab @ ''url = https://example.org'' @ [nl]
           @ tab @ ''arch = any'' @ [nl]
           @ tab @ ''license = unknown'' @ [nl]
           @ [nl]
           @ ''pkgname = awscli-local'' @ [nl])"
    by (simp add: regenerator_main_files parse_shadowed_url generate_srcinfo_def srcinfo_lines_def)
  show ?thesis using h z f by blast
qed

section \<open>Substitution and occurrences\<close>

lemma re_sub_no_match:
  "(\<forall>i\<le>length s. m (drop i s) = None) \<Longrightarrow> re_sub m r s = s"
proof (induction s)
  case Nil
  then show ?case by simp
next
  case (Cons c cs)
  have "m (c # cs) = None" using Cons.prems by (metis drop0 le0)
  moreover have "\<forall>i\<le>length cs. m (drop i cs) = None"
  proof (intro allI impI)
    fix i assume "i \<le> length cs"
    then have "m (drop (Suc i) (c # cs)) = None" using Cons.prems by (metis Suc_le_mono length_Cons)
    then show "m (drop i cs) = None" by simp
  qed
  ultimately show ?case using Cons.IH by simp
qed

lemma re_sub_first:
  assumes "\<forall>i<length a. m (drop i (a @ t)) = None" and "m t = Some (g, n)"
    and "0 < n" and "t \<noteq> []"
  shows "re_sub m r (a @ t) = a @ r g @ re_sub m r (drop n t)"
  using assms(1)
proof (induction a)
  case Nil
  obtain c cs where t: "t = c # cs" using assms(4) by (cases t) auto
  have "drop (n - 1) cs = drop n (c # cs)" using assms(3) by (cases n) auto
  then show ?case using assms(2) t by simp
next
  case (Cons c a)
  have "m (c # a @ t) = None" using Cons.prems by (metis append_Cons drop0 length_greater_0_conv list.distinct(1))
  moreover have "\<forall>i<length a. m (drop i (a @ t)) = None"
  proof (intro allI impI)
    fix i assume "i < length a"
    then have "m (drop (Suc i) ((c # a) @ t)) = None" using Cons.prems by (metis Suc_less_eq length_Cons)
    then show "m (drop i (a @ t)) = None" by simp
  qed
  ultimately show ?case using Cons.IH by simp
qed

lemma occurrences_one_iff:
  "occurrences p s = 1 \<longleftrightarrow>
     (\<exists>i\<le>length s. prefix p (drop i s) \<and> (\<forall>j\<le>length s. prefix p (drop j s) \<longrightarrow> j = i))"
proof
  assume o: "occurrences p s = 1"
  then have "has_sub p s" using occurrences_zero_iff[of p s] by auto
  then obtain i where i: "i \<le> length s" "prefix p (drop i s)" by (auto simp: has_sub_iff)
  then have "\<forall>j\<le>length s. prefix p (drop j s) \<longrightarrow> j = i"
    using occurrences_one_unique[OF o] by blast
  then show "\<exists>i\<le>length s. prefix p (drop i s) \<and> (\<forall>j\<le>length s. prefix p (drop j s) \<longrightarrow> j = i)"
    using i by blast
next
  assume "\<exists>i\<le>length s. prefix p (drop i s) \<and> (\<forall>j\<le>length s. prefix p (drop j s) \<longrightarrow> j = i)"
  then show "occurrences p s = 1"
  proof (induction s)
    case Nil
    then show ?case by auto
  next
    case (Cons c cs)
    then obtain i where i: "i \<le> length (c # cs)" "prefix p (drop i (c # cs))"
      and u: "\<And>j. j \<le> length (c # cs) \<Longrightarrow> prefix p (drop j (c # cs)) \<Longrightarrow> j = i" by blast
    show ?case
    proof (cases "prefix p (c # cs)")
      case True
      then have i0: "i = 0" using u[of 0] by simp
      have "\<not> has_sub p cs"
      proof
        assume "has_sub p cs"
        then obtain k where "k \<le> length cs" "prefix p (drop k cs)" by (auto simp: has_sub_iff)
        then have "Suc k = i" using u[of "Suc k"] by simp
        then show False using i0 by simp
      qed
      then show ?thesis using True by (simp add: occurrences_zero_iff)
    next
      case False
      then obtain i' where i': "i = Suc i'" using i(2) by (cases i) auto
      have "\<exists>i\<le>length cs. prefix p (drop i cs) \<and> (\<forall>j\<le>length cs. prefix p (drop j cs) \<longrightarrow> j = i)"
      proof (intro exI[of _ i'] conjI allI impI)
        show "i' \<le> length cs" "prefix p (drop i' cs)" using i i' by auto
      next
        fix j assume "j \<le> length cs" "prefix p (drop j cs)"
        then have "Suc j = i" using u[of "Suc j"] by simp
        then show "j = i'" using i' by simp
      qed
      then show ?thesis using Cons.IH False by simp
    qed
  qed
qed

lemma prefix_drop_append_iff:
  assumes "j + length p \<le> length x"
  shows "prefix p (drop j (x @ y)) \<longleftrightarrow> prefix p (drop j x)"
proof -
  have d: "drop j (x @ y) = drop j x @ y" using assms by simp
  have l: "length p \<le> length (drop j x)" using assms by simp
  show ?thesis unfolding d using l prefix_append_short[of p "drop j x" y] prefix_prefix by blast
qed

lemma prefix_stops_before:
  assumes "prefix p (drop j (x @ c # y))" and "j \<le> length x" and "c \<notin> set p"
  shows "j + length p \<le> length x"
proof (rule ccontr)
  assume "\<not> j + length p \<le> length x"
  then have lt: "length x - j < length p" using assms(2) by simp
  obtain z where z: "drop j (x @ c # y) = p @ z" using assms(1) by (auto simp: prefix_def)
  have "drop j (x @ c # y) = drop j x @ c # y" using assms(2) by simp
  then have "(drop j (x @ c # y)) ! (length x - j) = c"
    using assms(2) by (simp add: nth_append)
  then have "(p @ z) ! (length x - j) = c" using z by simp
  then have "p ! (length x - j) = c" using lt by (simp add: nth_append)
  then show False using assms(3) lt nth_mem by metis
qed

lemma has_sub_append_right: "has_sub p b \<Longrightarrow> has_sub p (a @ b)"
  by (induction a) auto

lemma has_sub_drop: "has_sub p (drop i s) \<Longrightarrow> has_sub p s"
  using has_sub_append_right[of p "drop i s" "take i s"] by simp

lemma prefix_has_sub: "prefix p (drop i s) \<Longrightarrow> i \<le> length s \<Longrightarrow> has_sub p s"
  by (auto simp: has_sub_iff)

section \<open>Substitution line by line\<close>

lemma prefix_before_char:
  assumes "prefix K (t @ c # z)" and "c \<notin> set K"
  shows "prefix K t"
proof -
  have "prefix K (drop 0 (t @ c # z))" using assms(1) by simp
  then have "0 + length K \<le> length t" by (rule prefix_stops_before) (use assms(2) in simp_all)
  then show ?thesis using assms(1) prefix_append_short by auto
qed

lemma re_sub_skip_line:
  assumes key: "\<forall>s g. m s = Some g \<longrightarrow> prefix K s" and nl: "nl \<notin> set K"
    and none: "\<not> has_sub K t"
  shows "re_sub m r (t @ nl # z) = t @ nl # re_sub m r z"
  using none
proof (induction t)
  case Nil
  have "K \<noteq> []" using Nil by auto
  then have "\<not> prefix K (nl # z)" using nl by (cases K) auto
  then have "m (nl # z) = None" using key by (cases "m (nl # z)") auto
  then show ?case by simp
next
  case (Cons c t)
  have "\<not> prefix K ((c # t) @ nl # z)"
  proof
    assume p: "prefix K ((c # t) @ nl # z)"
    then have "prefix K (c # t)" using nl by (rule prefix_before_char)
    then show False using Cons.prems by simp
  qed
  then have "m (c # t @ nl # z) = None" using key by (cases "m (c # t @ nl # z)") auto
  moreover have "\<not> has_sub K t" using Cons.prems by simp
  ultimately show ?case using Cons.IH by simp
qed

lemma re_sub_hit_line:
  assumes key: "\<forall>s g. m s = Some g \<longrightarrow> prefix K s" and nl: "nl \<notin> set K" and K: "K \<noteq> []"
    and hit: "m (t @ nl # z) = Some (g, length t)" and t: "t \<noteq> []"
  shows "re_sub m r (t @ nl # z) = r g @ nl # re_sub m r z"
proof -
  obtain c cs where c: "t = c # cs" using t by (cases t) auto
  have "\<not> prefix K (nl # z)" using nl K by (cases K) auto
  then have n: "m (nl # z) = None" using key by (cases "m (nl # z)") auto
  have "re_sub m r (t @ nl # z) = r g @ re_sub m r (drop (length t - 1) (cs @ nl # z))"
    using hit c by simp
  also have "drop (length t - 1) (cs @ nl # z) = nl # z" using c by simp
  finally show ?thesis using n by simp
qed

lemma re_sub_lines:
  assumes key: "\<forall>s g. m s = Some g \<longrightarrow> prefix K s" and nl: "nl \<notin> set K" and K: "K \<noteq> []"
    and each: "\<forall>l\<in>set ls.
        (\<not> has_sub K (line_text l) \<and> line_text (f l) = line_text l) \<or>
        (line_text l \<noteq> [] \<and>
         (\<forall>z. \<exists>g. m (line_text l @ nl # z) = Some (g, length (line_text l)) \<and> r g = line_text (f l)))"
  shows "re_sub m r (descriptor_text ls) = descriptor_text (map f ls)"
  using each
proof (induction ls)
  case Nil
  then show ?case by (simp add: descriptor_text_def)
next
  case (Cons l ls)
  have IH: "re_sub m r (descriptor_text ls) = descriptor_text (map f ls)" using Cons by simp
  have d: "descriptor_text (l # ls) = line_text l @ nl # descriptor_text ls"
    "descriptor_text (map f (l # ls)) = line_text (f l) @ nl # descriptor_text (map f ls)"
    by (simp_all add: descriptor_text_def)
  consider (skip) "\<not> has_sub K (line_text l)" "line_text (f l) = line_text l"
    | (hit) "line_text l \<noteq> []"
        "\<forall>z. \<exists>g. m (line_text l @ nl # z) = Some (g, length (line_text l)) \<and> r g = line_text (f l)"
    using Cons.prems by auto
  then show ?case
  proof cases
    case skip
    then show ?thesis unfolding d using re_sub_skip_line[OF key nl skip(1)] IH by simp
  next
    case hit
    then obtain g where g: "m (line_text l @ nl # descriptor_text ls) = Some (g, length (line_text l))"
      "r g = line_text (f l)" by blast
    show ?thesis unfolding d using re_sub_hit_line[OF key nl K g(1) hit(1)] g(2) IH by simp
  qed
qed

lemma has_sub_descriptor_text:
  assumes nl: "nl \<notin> set K" and K: "K \<noteq> []"
  shows "has_sub K (descriptor_text ls) \<longleftrightarrow> (\<exists>l\<in>set ls. has_sub K (line_text l))"
proof (induction ls)
  case Nil
  then show ?case using K by (simp add: descriptor_text_def)
next
  case (Cons l ls)
  have d: "descriptor_text (l # ls) = line_text l @ nl # descriptor_text ls"
    by (simp add: descriptor_text_def)
  have "has_sub K (t @ nl # z) \<longleftrightarrow> has_sub K t \<or> has_sub K z" for t z
  proof (induction t)
    case Nil
    have "\<not> prefix K (nl # z)" using nl K by (cases K) auto
    then show ?case using K by simp
  next
    case (Cons c t)
    have "prefix K ((c # t) @ nl # z) \<longleftrightarrow> prefix K (c # t)"
    proof
      assume p: "prefix K ((c # t) @ nl # z)"
      then show "prefix K (c # t)" using nl by (rule prefix_before_char)
    next
      assume "prefix K (c # t)"
      then show "prefix K ((c # t) @ nl # z)" using prefix_prefix by fastforce
    qed
    then show ?case using Cons by auto
  qed
  then show ?case unfolding d using Cons.IH by auto
qed

lemma prefix_last_char:
  assumes "prefix K s" and "K \<noteq> []"
  shows "s ! (length K - 1) = last K"
proof -
  obtain z where "s = K @ z" using assms(1) by (auto simp: prefix_def)
  then show ?thesis using assms(2) by (simp add: nth_append last_conv_nth)
qed

lemma has_sub_last_char:
  assumes "has_sub K (x @ y)" and "K \<noteq> []" and "last K \<notin> set y"
  shows "has_sub K x"
proof -
  obtain i where i: "i \<le> length (x @ y)" "prefix K (drop i (x @ y))"
    using assms(1) by (auto simp: has_sub_iff)
  have "length K \<le> length (drop i (x @ y))" using i(2) by (rule prefix_length_le)
  then have fit: "i + length K \<le> length (x @ y)" using i(1) by simp
  show ?thesis
  proof (cases "i + length K \<le> length x")
    case True
    then have "prefix K (drop i x)" using i(2) prefix_drop_append_iff by blast
    then show ?thesis using True prefix_has_sub[of K i x] by simp
  next
    case False
    define j where "j = i + (length K - 1)"
    have lk: "0 < length K" using assms(2) by simp
    have fit': "i + length K \<le> length x + length y" using fit by simp
    have "length x \<le> j" "j < length x + length y" using False fit' lk unfolding j_def by linarith+
    then have j: "length x \<le> j" "j < length (x @ y)" by simp_all
    have "drop i (x @ y) ! (length K - 1) = last K" using prefix_last_char[OF i(2) assms(2)] .
    moreover have "drop i (x @ y) ! (length K - 1) = (x @ y) ! (i + (length K - 1))"
      using i(1) by (rule nth_drop)
    ultimately have "(x @ y) ! j = last K" unfolding j_def by metis
    then have "y ! (j - length x) = last K" using j by (simp add: nth_append)
    moreover have "j - length x < length y" using j by auto
    ultimately show ?thesis using assms(3) nth_mem by metis
  qed
qed

lemma avoids_iff: "avoids cs s \<longleftrightarrow> (\<forall>c\<in>set s. c \<notin> set cs)"
  by (simp add: avoids_def list_all_iff)

lemma no_key_in_value_line:
  assumes "K \<noteq> []" and "last K \<notin> set y" and "\<not> has_sub K x"
  shows "\<not> has_sub K (x @ y)"
  using assms has_sub_last_char by blast

lemma no_version_key:
  assumes "line_ok l" and "\<forall>v. l \<noteq> Version_line v"
  shows "\<not> has_sub ''pkgver='' (line_text l)"
proof (cases l)
  case (Version_line v)
  then show ?thesis using assms(2) by simp
next
  case (Release_line r)
  have a: "last ''pkgver='' \<notin> set (r)" using assms(1) Release_line by (auto simp: avoids_iff)
  have b: "\<not> has_sub ''pkgver='' (''pkgrel='')" by (simp)
  have "\<not> has_sub ''pkgver='' ((''pkgrel='') @ (r))"
    by (rule no_key_in_value_line[OF _ a b]) simp
  then show ?thesis using Release_line by (simp add: checksum_assignment_def)
next
  case (Source_line p)
  have a: "last ''pkgver='' \<notin> set (p @ [dq] @ '')'')" using assms(1) Source_line by (auto simp: avoids_iff)
  have b: "\<not> has_sub ''pkgver='' (''source=('' @ [dq] @ registry)" by (simp add: registry_def)
  have "\<not> has_sub ''pkgver='' ((''source=('' @ [dq] @ registry) @ (p @ [dq] @ '')''))"
    by (rule no_key_in_value_line[OF _ a b]) simp
  then show ?thesis using Source_line by (simp add: checksum_assignment_def)
next
  case (Checksum_line h)
  have a: "last ''pkgver='' \<notin> set (h @ [sq] @ '')'')" using assms(1) Checksum_line by (auto simp: avoids_iff)
  have b: "\<not> has_sub ''pkgver='' (''sha256sums=('' @ [sq])" by (simp)
  have "\<not> has_sub ''pkgver='' ((''sha256sums=('' @ [sq]) @ (h @ [sq] @ '')''))"
    by (rule no_key_in_value_line[OF _ a b]) simp
  then show ?thesis using Checksum_line by (simp add: checksum_assignment_def)
next
  case (Other_line t)
  then show ?thesis using assms(1) by simp
qed

lemma no_release_key:
  assumes "line_ok l" and "\<forall>v. l \<noteq> Release_line v"
  shows "\<not> has_sub ''pkgrel='' (line_text l)"
proof (cases l)
  case (Version_line v)
  have a: "last ''pkgrel='' \<notin> set (v)" using assms(1) Version_line by (auto simp: avoids_iff)
  have b: "\<not> has_sub ''pkgrel='' (''pkgver='')" by (simp)
  have "\<not> has_sub ''pkgrel='' ((''pkgver='') @ (v))"
    by (rule no_key_in_value_line[OF _ a b]) simp
  then show ?thesis using Version_line by (simp add: checksum_assignment_def)
next
  case (Release_line r)
  then show ?thesis using assms(2) by simp
next
  case (Source_line p)
  have a: "last ''pkgrel='' \<notin> set (p @ [dq] @ '')'')" using assms(1) Source_line by (auto simp: avoids_iff)
  have b: "\<not> has_sub ''pkgrel='' (''source=('' @ [dq] @ registry)" by (simp add: registry_def)
  have "\<not> has_sub ''pkgrel='' ((''source=('' @ [dq] @ registry) @ (p @ [dq] @ '')''))"
    by (rule no_key_in_value_line[OF _ a b]) simp
  then show ?thesis using Source_line by (simp add: checksum_assignment_def)
next
  case (Checksum_line h)
  have a: "last ''pkgrel='' \<notin> set (h @ [sq] @ '')'')" using assms(1) Checksum_line by (auto simp: avoids_iff)
  have b: "\<not> has_sub ''pkgrel='' (''sha256sums=('' @ [sq])" by (simp)
  have "\<not> has_sub ''pkgrel='' ((''sha256sums=('' @ [sq]) @ (h @ [sq] @ '')''))"
    by (rule no_key_in_value_line[OF _ a b]) simp
  then show ?thesis using Checksum_line by (simp add: checksum_assignment_def)
next
  case (Other_line t)
  then show ?thesis using assms(1) by simp
qed

lemma no_source_key:
  assumes "line_ok l" and "\<forall>v. l \<noteq> Source_line v"
  shows "\<not> has_sub ''source=('' (line_text l)"
proof (cases l)
  case (Version_line v)
  have a: "last ''source=('' \<notin> set (v)" using assms(1) Version_line by (auto simp: avoids_iff)
  have b: "\<not> has_sub ''source=('' (''pkgver='')" by (simp)
  have "\<not> has_sub ''source=('' ((''pkgver='') @ (v))"
    by (rule no_key_in_value_line[OF _ a b]) simp
  then show ?thesis using Version_line by (simp add: checksum_assignment_def)
next
  case (Release_line r)
  have a: "last ''source=('' \<notin> set (r)" using assms(1) Release_line by (auto simp: avoids_iff)
  have b: "\<not> has_sub ''source=('' (''pkgrel='')" by (simp)
  have "\<not> has_sub ''source=('' ((''pkgrel='') @ (r))"
    by (rule no_key_in_value_line[OF _ a b]) simp
  then show ?thesis using Release_line by (simp add: checksum_assignment_def)
next
  case (Source_line p)
  then show ?thesis using assms(2) by simp
next
  case (Checksum_line h)
  have a: "last ''source=('' \<notin> set (h @ [sq] @ '')'')" using assms(1) Checksum_line by (auto simp: avoids_iff)
  have b: "\<not> has_sub ''source=('' (''sha256sums=('' @ [sq])" by (simp)
  have "\<not> has_sub ''source=('' ((''sha256sums=('' @ [sq]) @ (h @ [sq] @ '')''))"
    by (rule no_key_in_value_line[OF _ a b]) simp
  then show ?thesis using Checksum_line by (simp add: checksum_assignment_def)
next
  case (Other_line t)
  then show ?thesis using assms(1) by simp
qed

lemma no_checksum_key:
  assumes "line_ok l" and "\<forall>v. l \<noteq> Checksum_line v"
  shows "\<not> has_sub ''sha256sums=('' (line_text l)"
proof (cases l)
  case (Version_line v)
  have a: "last ''sha256sums=('' \<notin> set (v)" using assms(1) Version_line by (auto simp: avoids_iff)
  have b: "\<not> has_sub ''sha256sums=('' (''pkgver='')" by (simp)
  have "\<not> has_sub ''sha256sums=('' ((''pkgver='') @ (v))"
    by (rule no_key_in_value_line[OF _ a b]) simp
  then show ?thesis using Version_line by (simp add: checksum_assignment_def)
next
  case (Release_line r)
  have a: "last ''sha256sums=('' \<notin> set (r)" using assms(1) Release_line by (auto simp: avoids_iff)
  have b: "\<not> has_sub ''sha256sums=('' (''pkgrel='')" by (simp)
  have "\<not> has_sub ''sha256sums=('' ((''pkgrel='') @ (r))"
    by (rule no_key_in_value_line[OF _ a b]) simp
  then show ?thesis using Release_line by (simp add: checksum_assignment_def)
next
  case (Source_line p)
  have a: "last ''sha256sums=('' \<notin> set (p @ [dq] @ '')'')" using assms(1) Source_line by (auto simp: avoids_iff)
  have b: "\<not> has_sub ''sha256sums=('' (''source=('' @ [dq] @ registry)" by (simp add: registry_def)
  have "\<not> has_sub ''sha256sums=('' ((''source=('' @ [dq] @ registry) @ (p @ [dq] @ '')''))"
    by (rule no_key_in_value_line[OF _ a b]) simp
  then show ?thesis using Source_line by (simp add: checksum_assignment_def)
next
  case (Checksum_line h)
  then show ?thesis using assms(2) by simp
next
  case (Other_line t)
  then show ?thesis using assms(1) by simp
qed

section \<open>Descriptor Updater: failures leave the descriptor as it was\<close>

lemma get_package_info_files [simp]: "files (snd (get_package_info e v p)) = files p"
  by (simp add: get_package_info_def Let_def split: fetch.splits option.splits)

lemma verify_checksum_files [simp]: "files (snd (verify_checksum e u h p)) = files p"
  by (simp add: verify_checksum_def Let_def split: fetch.splits)

lemma update_pkgbuild_failure_files:
  "fst (update_pkgbuild e v info p) = False \<Longrightarrow> files (snd (update_pkgbuild e v info p)) = files p"
  by (auto simp: update_pkgbuild_def split: option.splits)

lemma updater_main_cases:
  "updater_main e version verify p =
     (case get_package_info e version (print (''Updating PKGBUILD to version '' @ version) p) of
        (None, p1) \<Rightarrow> (1, p1)
      | (Some info, p1) \<Rightarrow>
          (let p2 = print (''SHA256: '' @ pi_sha256 info) (print (''Download URL: '' @ pi_url info) p1);
               r = (if verify then verify_checksum e (pi_url info) (pi_sha256 info) p2 else (True, p2))
           in if \<not> fst r then (1, snd r)
              else (case update_pkgbuild e version info (snd r) of
                      (False, p4) \<Rightarrow> (1, p4)
                    | (True, p4) \<Rightarrow>
                        (0, print (check_mark @ '' Successfully updated to version '' @ version) p4))))"
  by (simp add: updater_main_def Let_def split: prod.splits option.splits)

lemma updater_nonzero_files:
  assumes "fst (updater_main e version verify p) \<noteq> 0"
  shows "files (snd (updater_main e version verify p)) = files p"
proof (cases "get_package_info e version (print (''Updating PKGBUILD to version '' @ version) p)")
  case (Pair r p1)
  have "files (snd (r, p1)) = files p"
    unfolding Pair[symmetric] by simp
  then have f1: "files p1 = files p" by simp
  show ?thesis
  proof (cases r)
    case None
    then show ?thesis using Pair f1 by (simp add: updater_main_cases)
  next
    case (Some info)
    define p2 where "p2 = print (''SHA256: '' @ pi_sha256 info) (print (''Download URL: '' @ pi_url info) p1)"
    define r2 where "r2 = (if verify then verify_checksum e (pi_url info) (pi_sha256 info) p2 else (True, p2))"
    have f2: "files (snd r2) = files p" using f1 by (simp add: r2_def p2_def)
    have m: "updater_main e version verify p =
       (if \<not> fst r2 then (1, snd r2)
        else (case update_pkgbuild e version info (snd r2) of
                (False, p4) \<Rightarrow> (1, p4)
              | (True, p4) \<Rightarrow> (0, print (check_mark @ '' Successfully updated to version '' @ version) p4)))"
      using Pair Some by (simp add: updater_main_cases Let_def r2_def p2_def)
    show ?thesis
    proof (cases "fst r2")
      case False
      then show ?thesis using m f2 by simp
    next
      case True
      obtain ok p4 where u: "update_pkgbuild e version info (snd r2) = (ok, p4)" by fastforce
      with assms m True have "ok = False" by (cases ok) auto
      then have "fst (update_pkgbuild e version info (snd r2)) = False" using u by simp
      then have "files (snd (update_pkgbuild e version info (snd r2))) = files (snd r2)"
        by (rule update_pkgbuild_failure_files)
      then have "files p4 = files (snd r2)" using u by simp
      then show ?thesis using m True u \<open>ok = False\<close> f2 by simp
    qed
  qed
qed

lemma updater_zero_files:
  assumes "fst (updater_main e version verify p) = 0"
  shows "\<exists>content info. files p ''PKGBUILD'' = Some content \<and>
           fst (get_package_info e version (print (''Updating PKGBUILD to version '' @ version) p)) = Some info \<and>
           files (snd (updater_main e version verify p)) =
             (files p)(''PKGBUILD'' \<mapsto> rewrite version info content)"
proof (cases "get_package_info e version (print (''Updating PKGBUILD to version '' @ version) p)")
  case (Pair r p1)
  have "files (snd (r, p1)) = files p"
    unfolding Pair[symmetric] by simp
  then have f1: "files p1 = files p" by simp
  show ?thesis
  proof (cases r)
    case None
    then show ?thesis using Pair assms by (simp add: updater_main_cases)
  next
    case (Some info)
    define p2 where "p2 = print (''SHA256: '' @ pi_sha256 info) (print (''Download URL: '' @ pi_url info) p1)"
    define r2 where "r2 = (if verify then verify_checksum e (pi_url info) (pi_sha256 info) p2 else (True, p2))"
    have f2: "files (snd r2) = files p" using f1 by (simp add: r2_def p2_def)
    have m: "updater_main e version verify p =
       (if \<not> fst r2 then (1, snd r2)
        else (case update_pkgbuild e version info (snd r2) of
                (False, p4) \<Rightarrow> (1, p4)
              | (True, p4) \<Rightarrow> (0, print (check_mark @ '' Successfully updated to version '' @ version) p4)))"
      using Pair Some by (simp add: updater_main_cases Let_def r2_def p2_def)
    have t: "fst r2" using m assms by (cases "fst r2") auto
    obtain ok p4 where u: "update_pkgbuild e version info (snd r2) = (ok, p4)" by fastforce
    have ok: "ok" using m t u assms by (cases ok) auto
    from u ok obtain content where c: "files (snd r2) ''PKGBUILD'' = Some content"
      and p4: "files p4 = (files (snd r2))(''PKGBUILD'' \<mapsto> rewrite version info content)"
      by (auto simp: update_pkgbuild_def split: option.splits)
    show ?thesis using m t u ok c p4 f2 Pair Some by auto
  qed
qed

text \<open>
  C3. When the request for the version's record fails, when the record has no source
  distribution, or when verification is on and the download fails or the digest of
  the downloaded content differs from the digest the index reports, the updater exits
  with 1 and every file is as it was. More generally every run that does not exit
  with 0 leaves the files as they were, and a run that exits with 0 has replaced the
  descriptor by the result of all four rewriting steps on the text it read.
\<close>

theorem updater_failure_leaves_descriptor:
  "(((\<exists>msg. index_record e version = Failed msg) \<or>
     (\<exists>fs. index_record e version = Fetched fs \<and> first_sdist fs = None) \<or>
     (\<exists>fs f msg. verify \<and> index_record e version = Fetched fs \<and> first_sdist fs = Some f \<and>
        download e (url f) = Failed msg) \<or>
     (\<exists>fs f content. verify \<and> index_record e version = Fetched fs \<and> first_sdist fs = Some f \<and>
        download e (url f) = Fetched content \<and> sha256_hexdigest e content \<noteq> digest_sha256 f))
    \<longrightarrow> fst (updater_main e version verify p) = 1 \<and>
        files (snd (updater_main e version verify p)) = files p) \<and>
   (fst (updater_main e version verify p) \<noteq> 0 \<longrightarrow>
      files (snd (updater_main e version verify p)) = files p) \<and>
   (fst (updater_main e version verify p) = 0 \<longrightarrow>
      (\<exists>content info. files p ''PKGBUILD'' = Some content \<and>
         files (snd (updater_main e version verify p)) =
           (files p)(''PKGBUILD'' \<mapsto> rewrite version info content)))"
proof (intro conjI impI)
  assume "fst (updater_main e version verify p) \<noteq> 0"
  then show "files (snd (updater_main e version verify p)) = files p" by (rule updater_nonzero_files)
next
  assume "fst (updater_main e version verify p) = 0"
  then show "\<exists>content info. files p ''PKGBUILD'' = Some content \<and>
         files (snd (updater_main e version verify p)) =
           (files p)(''PKGBUILD'' \<mapsto> rewrite version info content)"
    using updater_zero_files by blast
next
  assume f: "(\<exists>msg. index_record e version = Failed msg) \<or>
     (\<exists>fs. index_record e version = Fetched fs \<and> first_sdist fs = None) \<or>
     (\<exists>fs f msg. verify \<and> index_record e version = Fetched fs \<and> first_sdist fs = Some f \<and>
        download e (url f) = Failed msg) \<or>
     (\<exists>fs f content. verify \<and> index_record e version = Fetched fs \<and> first_sdist fs = Some f \<and>
        download e (url f) = Fetched content \<and> sha256_hexdigest e content \<noteq> digest_sha256 f)"
  then show one: "fst (updater_main e version verify p) = 1"
    by (auto simp: updater_main_cases get_package_info_def verify_checksum_def Let_def)
  then show "files (snd (updater_main e version verify p)) = files p"
    using updater_nonzero_files by simp
qed

theorem updater_failure_leaves_descriptor_witness:
  "fst (updater_main (sample_env (Failed ''timeout'')) ''2.0.0'' True sample_proc) = 1 \<and>
   files (snd (updater_main (sample_env (Failed ''timeout'')) ''2.0.0'' True sample_proc)) = files sample_proc \<and>
   fst (updater_main (sample_env (Fetched [sample_wheel])) ''2.0.0'' True sample_proc) = 1 \<and>
   files (snd (updater_main (sample_env (Fetched [sample_wheel])) ''2.0.0'' True sample_proc)) = files sample_proc \<and>
   fst (updater_main (sample_env (Fetched [sample_wheel, sample_sdist])) ''2.0.0'' True sample_proc) = 1 \<and>
   files (snd (updater_main (sample_env (Fetched [sample_wheel, sample_sdist])) ''2.0.0'' True sample_proc))
     = files sample_proc \<and>
   fst (updater_main ((sample_env (Fetched [sample_sdist]))\<lparr>download := \<lambda>u. Failed ''reset''\<rparr>)
          ''2.0.0'' True sample_proc) = 1 \<and>
   files (snd (updater_main ((sample_env (Fetched [sample_sdist]))\<lparr>download := \<lambda>u. Failed ''reset''\<rparr>)
          ''2.0.0'' True sample_proc)) = files sample_proc \<and>
   fst (updater_main (sample_env (Fetched [sample_wheel, sample_sdist])) ''2.0.0'' False sample_proc) = 0 \<and>
   (\<exists>content info. files sample_proc ''PKGBUILD'' = Some content \<and>
      files (snd (updater_main (sample_env (Fetched [sample_wheel, sample_sdist])) ''2.0.0'' False sample_proc))
        = (files sample_proc)(''PKGBUILD'' \<mapsto> rewrite ''2.0.0'' info content))"
proof -
  have a: "\<exists>msg. index_record (sample_env (Failed ''timeout'')) ''2.0.0'' = Failed msg"
    by (simp add: sample_env_def)
  have b: "\<exists>fs. index_record (sample_env (Fetched [sample_wheel])) ''2.0.0'' = Fetched fs \<and> first_sdist fs = None"
    by (simp add: sample_env_def sample_wheel_def)
  have c: "\<exists>fs f content. True \<and>
      index_record (sample_env (Fetched [sample_wheel, sample_sdist])) ''2.0.0'' = Fetched fs \<and>
      first_sdist fs = Some f \<and>
      download (sample_env (Fetched [sample_wheel, sample_sdist])) (url f) = Fetched content \<and>
      sha256_hexdigest (sample_env (Fetched [sample_wheel, sample_sdist])) content \<noteq> digest_sha256 f"
    by (simp add: sample_env_def sample_wheel_def sample_sdist_def)
  have c': "\<exists>fs f msg. True \<and>
      index_record ((sample_env (Fetched [sample_sdist]))\<lparr>download := \<lambda>u. Failed ''reset''\<rparr>) ''2.0.0'' = Fetched fs \<and>
      first_sdist fs = Some f \<and>
      download ((sample_env (Fetched [sample_sdist]))\<lparr>download := \<lambda>u. Failed ''reset''\<rparr>) (url f) = Failed msg"
    by (simp add: sample_env_def sample_sdist_def)
  have d: "fst (updater_main (sample_env (Fetched [sample_wheel, sample_sdist])) ''2.0.0'' False sample_proc) = 0"
    by (simp add: updater_main_cases get_package_info_def update_pkgbuild_def Let_def
        sample_env_def sample_wheel_def sample_sdist_def sample_proc_def)
  show ?thesis
    using updater_failure_leaves_descriptor[of "sample_env (Failed ''timeout'')" "''2.0.0''" True sample_proc]
      updater_failure_leaves_descriptor[of "sample_env (Fetched [sample_wheel])" "''2.0.0''" True sample_proc]
      updater_failure_leaves_descriptor[of "sample_env (Fetched [sample_wheel, sample_sdist])" "''2.0.0''" True sample_proc]
      updater_failure_leaves_descriptor[of "(sample_env (Fetched [sample_sdist]))\<lparr>download := \<lambda>u. Failed ''reset''\<rparr>"
        "''2.0.0''" True sample_proc]
      updater_failure_leaves_descriptor[of "sample_env (Fetched [sample_wheel, sample_sdist])" "''2.0.0''" False sample_proc]
      a b c c' d
    by blast
qed

section \<open>Descriptor Updater: the checksum step\<close>

lemma sentinel_is_assignment: "sentinel = checksum_assignment ''SKIP''"
  by (simp add: sentinel_def checksum_assignment_def)

lemma checksum_assignment_split:
  "checksum_assignment h = ''sha256sums=('' @ sq # h @ [sq, rparen]"
  by (simp add: checksum_assignment_def)

lemma length_checksum_assignment: "length (checksum_assignment h) = 15 + length h"
  by (simp add: checksum_assignment_def)

lemma hex_digest_chars:
  assumes "is_hex_digest h" and "c \<in> set h"
  shows "c \<noteq> CHR ''s'' \<and> c \<noteq> sq \<and> c \<noteq> CHR 0x5C"
proof -
  have "c \<in> set ''0123456789abcdef''" using assms by (auto simp: is_hex_digest_def list_all_iff)
  then show ?thesis by auto
qed

lemma no_occurrence_inside_assignment:
  assumes "is_hex_digest h" and "1 \<le> k" and "k < length (checksum_assignment h)"
  shows "\<not> prefix ''sha256sums=('' (drop k (checksum_assignment h @ b))"
proof (cases "k < 13")
  case True
  then have "k \<in> {1, 2, 3, 4, 5, 6, 7, 8, 9, 10, 11, 12}" using assms(2) by (simp; arith)
  then show ?thesis by (auto simp: checksum_assignment_def)
next
  case False
  define t where "t = h @ [sq, rparen]"
  define m where "m = k - 13"
  have m: "m < length t" using False assms(3) by (simp add: m_def t_def length_checksum_assignment)
  define pre where "pre = ''sha256sums=('' @ [sq]"
  have lp: "length pre = 13" by (simp add: pre_def)
  have "checksum_assignment h @ b = pre @ (t @ b)"
    by (simp add: checksum_assignment_def t_def pre_def)
  then have "drop k (checksum_assignment h @ b) = drop m (t @ b)"
    using False lp by (simp add: m_def)
  also have "\<dots> = t ! m # drop (Suc m) (t @ b)"
    using m by (metis Cons_nth_drop_Suc length_append nth_append trans_less_add1)
  finally have d: "drop k (checksum_assignment h @ b) = t ! m # drop (Suc m) (t @ b)" .
  have "t ! m \<in> set t" using m by simp
  then have "t ! m \<noteq> CHR ''s''" using hex_digest_chars[OF assms(1)] by (auto simp: t_def)
  then show ?thesis unfolding d by simp
qed

lemma m_quoted_checksum_prefix:
  "m_quoted_checksum s = Some r \<Longrightarrow> prefix ''sha256sums=('' s"
  by (auto simp: m_quoted_checksum_def prefix_def split: if_splits)

lemma m_literal_sentinel_prefix:
  "m_literal sentinel s = Some r \<Longrightarrow> prefix ''sha256sums=('' s"
  by (auto simp: m_literal_def sentinel_def prefix_def split: if_splits)

lemma has_sub_sentinel: "has_sub sentinel s \<Longrightarrow> has_sub ''sha256sums=('' s"
proof -
  assume "has_sub sentinel s"
  then obtain i where i: "i \<le> length s" "prefix sentinel (drop i s)" by (auto simp: has_sub_iff)
  then have "prefix ''sha256sums=('' (drop i s)" by (auto simp: sentinel_def prefix_def)
  then show ?thesis using i(1) prefix_has_sub by blast
qed

lemma takeWhile_until:
  "c \<notin> set xs \<Longrightarrow> takeWhile (\<lambda>x. x \<noteq> c) (xs @ c # ys) = xs"
  by (induction xs) auto

lemma m_quoted_checksum_assignment:
  assumes "sq \<notin> set old"
  shows "m_quoted_checksum (checksum_assignment old @ b) = Some ((), length (checksum_assignment old))"
proof -
  have "takeWhile (\<lambda>c. c \<noteq> sq) (old @ sq # rparen # b) = old"
    using assms by (rule takeWhile_until)
  then show ?thesis by (simp add: m_quoted_checksum_def checksum_assignment_def)
qed

lemma m_literal_self: "m_literal lit (lit @ b) = Some ((), length lit)"
  by (simp add: m_literal_def)


lemma re_sub_unique_key:
  assumes key: "\<And>s r. m s = Some r \<Longrightarrow> prefix K s"
    and uniq: "\<forall>j\<le>length (a @ t @ b). prefix K (drop j (a @ t @ b)) \<longrightarrow> j = length a"
    and here: "m (t @ b) = Some (g, length t)" and ne: "t \<noteq> []"
  shows "re_sub m r (a @ t @ b) = a @ r g @ b"
proof -
  have early: "\<forall>i<length a. m (drop i (a @ (t @ b))) = None"
  proof (intro allI impI)
    fix i assume i: "i < length a"
    show "m (drop i (a @ (t @ b))) = None"
    proof (cases "m (drop i (a @ (t @ b)))")
      case (Some r)
      then have "prefix K (drop i (a @ t @ b))" using key by blast
      moreover have "i \<le> length (a @ t @ b)" using i by simp
      ultimately have "i = length a" using uniq by blast
      then show ?thesis using i by simp
    qed simp
  qed
  have late: "\<forall>i\<le>length b. m (drop i b) = None"
  proof (intro allI impI)
    fix i assume i: "i \<le> length b"
    show "m (drop i b) = None"
    proof (cases "m (drop i b)")
      case (Some r)
      have "drop (length a + length t + i) (a @ t @ b) = drop i b" by simp
      then have "prefix K (drop (length a + length t + i) (a @ t @ b))" using Some key by metis
      moreover have "length a + length t + i \<le> length (a @ t @ b)" using i by simp
      ultimately have "length a + length t + i = length a" using uniq by blast
      then show ?thesis using ne by simp
    qed simp
  qed
  have "re_sub m r (a @ (t @ b)) = a @ r g @ re_sub m r (drop (length t) (t @ b))"
    using re_sub_first[OF early here] ne by simp
  then show ?thesis using re_sub_no_match[OF late] by simp
qed

lemma occurrences_single_assignment:
  assumes hex: "is_hex_digest h"
    and before: "\<forall>j<length x. \<not> prefix ''sha256sums=('' (drop j (x @ checksum_assignment h @ b))"
    and after: "\<not> has_sub ''sha256sums=('' b"
  shows "occurrences ''sha256sums=('' (x @ checksum_assignment h @ b) = 1"
proof -
  let ?K = "''sha256sums=(''" and ?A = "checksum_assignment h"
  have at: "prefix ?K (drop (length x) (x @ ?A @ b))" by (simp add: checksum_assignment_def)
  have only: "j = length x" if j: "j \<le> length (x @ ?A @ b)" and p: "prefix ?K (drop j (x @ ?A @ b))" for j
  proof (rule ccontr)
    assume n: "j \<noteq> length x"
    have "\<not> j < length x" using before p by blast
    then have gt: "length x < j" using n by simp
    show False
    proof (cases "j < length x + length ?A")
      case True
      define k where "k = j - length x"
      have k: "1 \<le> k" "k < length ?A" using gt True by (simp_all add: k_def)
      have "drop j (x @ ?A @ b) = drop k (?A @ b)" using gt by (simp add: k_def)
      then show False using no_occurrence_inside_assignment[OF hex k] p by simp
    next
      case False
      then have "drop j (x @ ?A @ b) = drop (j - length x - length ?A) b" by simp
      then have "prefix ?K (drop (j - length x - length ?A) b)" using p by simp
      moreover have "j - length x - length ?A \<le> length b" using j by simp
      ultimately show False using after prefix_has_sub by blast
    qed
  qed
  show ?thesis
    unfolding occurrences_one_iff using at only by (intro exI[of _ "length x"]) auto
qed

lemma replace_unique_assignment:
  assumes hex: "is_hex_digest h" and q: "sq \<notin> set old"
    and o: "occurrences ''sha256sums=('' (a @ checksum_assignment old @ b) = 1"
  shows "update_sha256 h (a @ checksum_assignment old @ b) = a @ checksum_assignment h @ b"
    and "occurrences ''sha256sums=('' (a @ checksum_assignment h @ b) = 1"
proof -
  let ?K = "''sha256sums=(''" and ?c = "a @ checksum_assignment old @ b"
  have at: "prefix ?K (drop (length a) ?c)" by (simp add: checksum_assignment_def)
  have uniq: "\<forall>j\<le>length ?c. prefix ?K (drop j ?c) \<longrightarrow> j = length a"
    using occurrences_one_unique[OF o _ _ _ at] by simp
  have ne: "checksum_assignment old \<noteq> []" by (simp add: checksum_assignment_def)
  have sub: "has_sub ?K ?c" using at prefix_has_sub[of ?K "length a" ?c] by simp
  show "update_sha256 h ?c = a @ checksum_assignment h @ b"
  proof (cases "has_sub sentinel ?c")
    case True
    then obtain j where j: "j \<le> length ?c" "prefix sentinel (drop j ?c)" by (auto simp: has_sub_iff)
    then have "prefix ?K (drop j ?c)" by (auto simp: sentinel_def prefix_def)
    then have "j = length a" using uniq j(1) by blast
    then have "prefix sentinel (checksum_assignment old @ b)" using j(2) by simp
    then obtain z where "old @ sq # rparen # b = ''SKIP'' @ sq # rparen # z"
      by (auto simp: sentinel_def checksum_assignment_def prefix_def)
    then have "takeWhile (\<lambda>c. c \<noteq> sq) (old @ sq # rparen # b)
             = takeWhile (\<lambda>c. c \<noteq> sq) (''SKIP'' @ sq # rparen # z)" by simp
    then have "old = ''SKIP''" using takeWhile_until[OF q, of "rparen # b"] by simp
    then have old: "checksum_assignment old = sentinel" by (simp add: sentinel_is_assignment)
    have "re_sub (m_literal sentinel) (\<lambda>_. checksum_assignment h) (a @ sentinel @ b)
           = a @ checksum_assignment h @ b"
    proof (rule re_sub_unique_key[where K = ?K])
      show "\<And>s r. m_literal sentinel s = Some r \<Longrightarrow> prefix ?K s" by (rule m_literal_sentinel_prefix)
      show "\<forall>j\<le>length (a @ sentinel @ b). prefix ?K (drop j (a @ sentinel @ b)) \<longrightarrow> j = length a"
        using uniq old by simp
      show "m_literal sentinel (sentinel @ b) = Some ((), length sentinel)" by (rule m_literal_self)
      show "sentinel \<noteq> []" by (simp add: sentinel_def)
    qed
    then show ?thesis using True old by (simp add: update_sha256_def)
  next
    case False
    have "re_sub m_quoted_checksum (\<lambda>_. checksum_assignment h) ?c = a @ checksum_assignment h @ b"
      by (rule re_sub_unique_key[where K = ?K])
         (use uniq ne m_quoted_checksum_assignment[OF q] m_quoted_checksum_prefix in auto)
    then show ?thesis using False sub by (simp add: update_sha256_def)
  qed
  show "occurrences ?K (a @ checksum_assignment h @ b) = 1"
  proof (rule occurrences_single_assignment[OF hex])
    show "\<forall>j<length a. \<not> prefix ?K (drop j (a @ checksum_assignment h @ b))"
    proof (intro allI impI notI)
      fix j assume j: "j < length a" and p: "prefix ?K (drop j (a @ checksum_assignment h @ b))"
      have l: "j + length ?K \<le> length (a @ ?K)" using j by simp
      have "a @ checksum_assignment h @ b = (a @ ?K) @ (sq # h @ [sq, rparen] @ b)"
        by (simp add: checksum_assignment_def)
      then have "prefix ?K (drop j (a @ ?K))" using p prefix_drop_append_iff[OF l] by metis
      moreover have "?c = (a @ ?K) @ (sq # old @ [sq, rparen] @ b)"
        by (simp add: checksum_assignment_def)
      ultimately have "prefix ?K (drop j ?c)" using prefix_drop_append_iff[OF l] by metis
      moreover have "j \<le> length ?c" using j by simp
      ultimately have "j = length a" using uniq by blast
      then show False using j by simp
    qed
    show "\<not> has_sub ?K b"
    proof
      assume "has_sub ?K b"
      then obtain i where i: "i \<le> length b" "prefix ?K (drop i b)" by (auto simp: has_sub_iff)
      have "drop (length a + length (checksum_assignment old) + i) ?c = drop i b" by simp
      then have "prefix ?K (drop (length a + length (checksum_assignment old) + i) ?c)"
        using i(2) by metis
      moreover have "length a + length (checksum_assignment old) + i \<le> length ?c" using i(1) by simp
      ultimately have "length a + length (checksum_assignment old) + i = length a" using uniq by blast
      then show False using ne by simp
    qed
  qed
qed


lemma m_array_prefix: "m_array key s = Some r \<Longrightarrow> prefix key s"
  by (auto simp: m_array_def split: if_splits)

lemma m_array_value:
  assumes "body \<noteq> []" and "rparen \<notin> set body"
  shows "m_array key (key @ body @ rparen # b) = Some (body, length key + length body + 1)"
proof -
  have "takeWhile (\<lambda>c. c \<noteq> rparen) (body @ rparen # b) = body"
    using assms(2) by (rule takeWhile_until)
  then show ?thesis using assms(1) by (simp add: m_array_def)
qed

lemma update_sha256_insert:
  assumes "\<not> has_sub sentinel c" and "\<not> has_sub ''sha256sums=('' c"
    and "re_search (m_array ''source=('') c = Some (i, body, n)"
  shows "update_sha256 h c = take (i + n) c @ [nl] @ checksum_assignment h @ drop (i + n) c"
  using assms by (simp add: update_sha256_def Let_def)

lemma append_after_source:
  assumes hex: "is_hex_digest h" and body: "body \<noteq> []" "rparen \<notin> set body"
    and first: "\<not> has_sub ''source=('' (a @ ''source='')"
    and none: "\<not> has_sub ''sha256sums=('' (a @ ''source=('' @ body @ '')'' @ b)"
  shows "update_sha256 h (a @ ''source=('' @ body @ '')'' @ b)
           = a @ ''source=('' @ body @ '')'' @ [nl] @ checksum_assignment h @ b"
    and "occurrences ''sha256sums=('' (a @ ''source=('' @ body @ '')'' @ [nl] @ checksum_assignment h @ b) = 1"
proof -
  let ?K = "''sha256sums=(''" and ?S = "''source=(''"
  let ?c = "a @ ?S @ body @ '')'' @ b"
  define x where "x = a @ ?S @ body @ '')''"
  have c: "?c = x @ b" by (simp add: x_def)
  have none': "\<not> has_sub ?K (x @ b)" using none unfolding c .
  have early: "\<forall>i<length a. m_array ?S (drop i (a @ (?S @ body @ rparen # b))) = None"
  proof (intro allI impI)
    fix i assume i: "i < length a"
    have "\<not> prefix ?S (drop i (a @ ?S @ (body @ rparen # b)))"
      using no_early_occurrence[of ?S a i "body @ rparen # b"] first i by simp
    then show "m_array ?S (drop i (a @ (?S @ body @ rparen # b))) = None"
      by (cases "m_array ?S (drop i (a @ (?S @ body @ rparen # b)))") (auto dest: m_array_prefix)
  qed
  have "re_search (m_array ?S) (a @ (?S @ body @ rparen # b))
          = Some (length a, body, length ?S + length body + 1)"
    using re_search_first[OF early m_array_value[OF body]] .
  then have s: "re_search (m_array ?S) (x @ b) = Some (length a, body, length ?S + length body + 1)"
    by (simp add: x_def)
  have lx: "length a + (length ?S + length body + 1) = length x" by (simp add: x_def)
  have "\<not> has_sub sentinel (x @ b)" "\<not> has_sub ?K (x @ b)"
    using none' has_sub_sentinel by blast+
  then have "update_sha256 h (x @ b) =
      take (length a + (length ?S + length body + 1)) (x @ b) @ [nl] @ checksum_assignment h
      @ drop (length a + (length ?S + length body + 1)) (x @ b)"
    by (rule update_sha256_insert[OF _ _ s])
  then have "update_sha256 h (x @ b) = x @ [nl] @ checksum_assignment h @ b"
    unfolding lx by simp
  then show "update_sha256 h ?c = a @ ?S @ body @ '')'' @ [nl] @ checksum_assignment h @ b"
    by (simp add: x_def)
  have "occurrences ?K ((x @ [nl]) @ checksum_assignment h @ b) = 1"
  proof (rule occurrences_single_assignment[OF hex])
    show "\<forall>j<length (x @ [nl]). \<not> prefix ?K (drop j ((x @ [nl]) @ checksum_assignment h @ b))"
    proof (intro allI impI notI)
      fix j assume j: "j < length (x @ [nl])"
        and p: "prefix ?K (drop j ((x @ [nl]) @ checksum_assignment h @ b))"
      have jx: "j \<le> length x" using j by simp
      have p': "prefix ?K (drop j (x @ nl # (checksum_assignment h @ b)))" using p by simp
      have l: "j + length ?K \<le> length x"
        by (rule prefix_stops_before[OF p' jx]) simp
      then have "prefix ?K (drop j x)" using p' prefix_drop_append_iff[OF l] by blast
      then have "prefix ?K (drop j (x @ b))" using prefix_drop_append_iff[OF l] by blast
      then have "has_sub ?K (x @ b)" using jx prefix_has_sub[of ?K j "x @ b"] by simp
      then show False using none' by blast
    qed
    show "\<not> has_sub ?K b" using none' has_sub_append_right[of ?K b x] by blast
  qed
  then show "occurrences ?K (a @ ?S @ body @ '')'' @ [nl] @ checksum_assignment h @ b) = 1"
    by (simp add: x_def)
qed

lemma no_checksum_no_source:
  assumes "\<not> has_sub ''sha256sums=('' c" and "\<not> has_sub ''source=('' c"
  shows "update_sha256 h c = c"
proof -
  have "m_array ''source=('' (drop i c) = None" if "i \<le> length c" for i
  proof (cases "m_array ''source=('' (drop i c)")
    case (Some r)
    then have "prefix ''source=('' (drop i c)" by (rule m_array_prefix)
    then show ?thesis using assms(2) that prefix_has_sub by blast
  qed simp
  then have "re_search (m_array ''source=('') c = None" by (simp add: re_search_None_iff)
  moreover have "\<not> has_sub sentinel c" using assms(1) has_sub_sentinel by blast
  ultimately show ?thesis using assms(1) by (simp add: update_sha256_def)
qed

lemma update_sha256_outcomes:
  assumes "is_hex_digest h"
  shows "(has_sub sentinel c \<longrightarrow>
            update_sha256 h c = re_sub (m_literal sentinel) (\<lambda>_. checksum_assignment h) c) \<and>
         (sq \<notin> set old \<and> c = a @ checksum_assignment old @ b \<and>
            occurrences ''sha256sums=('' c = 1 \<longrightarrow>
            update_sha256 h c = a @ checksum_assignment h @ b \<and>
            occurrences ''sha256sums=('' (update_sha256 h c) = 1) \<and>
         (body \<noteq> [] \<and> rparen \<notin> set body \<and> c = a @ ''source=('' @ body @ '')'' @ b \<and>
            \<not> has_sub ''source=('' (a @ ''source='') \<and> \<not> has_sub ''sha256sums=('' c \<longrightarrow>
            update_sha256 h c = a @ ''source=('' @ body @ '')'' @ [nl] @ checksum_assignment h @ b \<and>
            occurrences ''sha256sums=('' (update_sha256 h c) = 1) \<and>
         (\<not> has_sub ''sha256sums=('' c \<and> \<not> has_sub ''source=('' c \<longrightarrow> update_sha256 h c = c)"
proof (intro conjI impI)
  show "has_sub sentinel c \<Longrightarrow>
      update_sha256 h c = re_sub (m_literal sentinel) (\<lambda>_. checksum_assignment h) c"
    by (simp add: update_sha256_def)
next
  assume "sq \<notin> set old \<and> c = a @ checksum_assignment old @ b \<and> occurrences ''sha256sums=('' c = 1"
  then have 1: "sq \<notin> set old" and 2: "c = a @ checksum_assignment old @ b"
    and 3: "occurrences ''sha256sums=('' (a @ checksum_assignment old @ b) = 1" by auto
  show "update_sha256 h c = a @ checksum_assignment h @ b"
    unfolding 2 by (rule replace_unique_assignment(1)[OF assms 1 3])
  then show "occurrences ''sha256sums=('' (update_sha256 h c) = 1"
    using replace_unique_assignment(2)[OF assms 1 3] by simp
next
  assume "body \<noteq> [] \<and> rparen \<notin> set body \<and> c = a @ ''source=('' @ body @ '')'' @ b \<and>
            \<not> has_sub ''source=('' (a @ ''source='') \<and> \<not> has_sub ''sha256sums=('' c"
  then have 1: "body \<noteq> []" and 2: "rparen \<notin> set body" and 3: "c = a @ ''source=('' @ body @ '')'' @ b"
    and 4: "\<not> has_sub ''source=('' (a @ ''source='')"
    and 5: "\<not> has_sub ''sha256sums=('' (a @ ''source=('' @ body @ '')'' @ b)" by auto
  show "update_sha256 h c = a @ ''source=('' @ body @ '')'' @ [nl] @ checksum_assignment h @ b"
    unfolding 3 by (rule append_after_source(1)[OF assms 1 2 4 5])
  then show "occurrences ''sha256sums=('' (update_sha256 h c) = 1"
    using append_after_source(2)[OF assms 1 2 4 5] by simp
next
  show "\<not> has_sub ''sha256sums=('' c \<and> \<not> has_sub ''source=('' c \<Longrightarrow> update_sha256 h c = c"
    using no_checksum_no_source by blast
qed

section \<open>Descriptor Updater: the source step\<close>

lemma py_split_sample_url:
  "last (py_split ''packages/'' (pi_url sample_info)) = ''ab/cd/awscli-local-2.0.0.tar.gz''"
  by (simp add: py_split_def sample_info_def sample_sdist_def)

section \<open>The source pattern on a source line\<close>

lemma last_registry_has_sub: "last_registry s = Some r \<Longrightarrow> has_sub registry s"
proof (induction s arbitrary: r)
  case Nil
  then show ?case by simp
next
  case (Cons c s)
  then show ?case by (cases "last_registry s") (auto split: if_splits)
qed

lemma last_registry_at_registry:
  assumes "last_registry y = None"
  shows "last_registry (registry @ y) =
     (if takeWhile (\<lambda>x. x \<noteq> dq \<and> x \<noteq> rparen) y \<noteq> [] then Some (registry, y) else None)"
  using assms by (simp add: registry_def)


lemma takeWhile_all_until:
  assumes "\<forall>c\<in>set xs. P c" and "\<not> P d"
  shows "takeWhile P (xs @ d # r) = xs"
  using assms by (induction xs) auto

lemma m_source_url_line:
  assumes "line_ok (Source_line p)"
  shows "m_source_url (line_text (Source_line p) @ rest) =
           Some ((''source=('' @ [dq] @ registry, [dq] @ '')''), length (line_text (Source_line p)))"
proof -
  define body where "body = dq # registry @ p @ [dq]"
  have p: "p \<noteq> []" "\<forall>c\<in>set p. c \<noteq> dq \<and> c \<noteq> rparen" "\<not> has_sub registry p"
    using assms by (auto simp: avoids_iff)
  have rb: "rparen \<notin> set body" using p(2) by (auto simp: body_def registry_def)
  have line: "line_text (Source_line p) @ rest = ''source=('' @ (body @ rparen # rest)"
    by (simp add: body_def)
  have tw: "takeWhile (\<lambda>c. c \<noteq> rparen) (body @ rparen # rest) = body"
    using rb by (rule takeWhile_until)
  have "\<not> has_sub registry (p @ [dq])"
    by (rule no_key_in_value_line[OF _ _ p(3)]) (simp_all add: registry_def)
  then have n: "last_registry (p @ [dq]) = None"
    using last_registry_has_sub by (cases "last_registry (p @ [dq])") auto
  obtain c cs where c: "p = c # cs" using p(1) by (cases p) auto
  then have "takeWhile (\<lambda>x. x \<noteq> dq \<and> x \<noteq> rparen) (p @ [dq]) \<noteq> []" using p(2) by simp
  then have "last_registry (registry @ (p @ [dq])) = Some (registry, p @ [dq])"
    using last_registry_at_registry[OF n] by simp
  then have lr: "last_registry body = Some (dq # registry, p @ [dq])"
    by (simp add: body_def)
  have old: "takeWhile (\<lambda>x. x \<noteq> dq \<and> x \<noteq> rparen) (p @ [dq]) = p"
    using takeWhile_all_until[of p "\<lambda>x. x \<noteq> dq \<and> x \<noteq> rparen" dq "[]"] p(2) by simp
  have len: "8 + length body + 1 = length (line_text (Source_line p))" by (simp add: body_def)
  have "m_source_url (''source=('' @ (body @ rparen # rest)) =
      Some ((''source=('' @ (dq # registry), drop (length p) (p @ [dq]) @ '')''), 8 + length body + 1)"
    unfolding m_source_url_def using tw lr old by (simp add: Let_def)
  then show ?thesis unfolding line len by simp
qed

lemma m_source_url_prefix: "m_source_url s = Some r \<Longrightarrow> prefix ''source=('' s"
  by (auto simp: m_source_url_def split: if_splits)

section \<open>The rewriting steps on a descriptor laid out in lines\<close>

lemma update_version_lines:
  assumes ok: "list_all line_ok ls"
  shows "update_version V (descriptor_text ls) =
     descriptor_text (map (\<lambda>l. case l of Version_line old \<Rightarrow> Version_line V | _ \<Rightarrow> l) ls)"
  unfolding update_version_def
proof (rule re_sub_lines[where K = "''pkgver=''"])
  show "\<forall>s g. m_rest_of_line ''pkgver='' s = Some g \<longrightarrow> prefix ''pkgver='' s"
    by (auto dest: m_rest_of_line_prefix)
  show "nl \<notin> set ''pkgver=''" "''pkgver='' \<noteq> []" by simp_all
  show "\<forall>l\<in>set ls.
       (\<not> has_sub ''pkgver='' (line_text l) \<and>
        line_text (case l of Version_line old \<Rightarrow> Version_line V | _ \<Rightarrow> l) = line_text l) \<or>
       (line_text l \<noteq> [] \<and>
        (\<forall>z. \<exists>g. m_rest_of_line ''pkgver='' (line_text l @ nl # z) = Some (g, length (line_text l)) \<and>
                 ''pkgver='' @ V = line_text (case l of Version_line old \<Rightarrow> Version_line V | _ \<Rightarrow> l)))"
  proof
    fix l assume "l \<in> set ls"
    then have l: "line_ok l" using ok by (simp add: list_all_iff)
    show "(\<not> has_sub ''pkgver='' (line_text l) \<and>
        line_text (case l of Version_line old \<Rightarrow> Version_line V | _ \<Rightarrow> l) = line_text l) \<or>
       (line_text l \<noteq> [] \<and>
        (\<forall>z. \<exists>g. m_rest_of_line ''pkgver='' (line_text l @ nl # z) = Some (g, length (line_text l)) \<and>
                 ''pkgver='' @ V = line_text (case l of Version_line old \<Rightarrow> Version_line V | _ \<Rightarrow> l)))"
    proof (cases "\<exists>v. l = Version_line v")
      case True
      then obtain v where v: "l = Version_line v" by blast
      then have "v \<noteq> []" "nl \<notin> set v" using l by (auto simp: avoids_iff)
      then have "m_rest_of_line ''pkgver='' (''pkgver='' @ v @ nl # z)
                   = Some (v, length ''pkgver='' + length v)" for z
        using m_rest_of_line_value[of v "nl # z" "''pkgver=''"] by simp
      then show ?thesis using v by simp
    next
      case False
      then have "\<not> has_sub ''pkgver='' (line_text l)" using no_version_key[OF l] by blast
      then show ?thesis using False by (cases l) auto
    qed
  qed
qed

lemma reset_pkgrel_lines:
  assumes ok: "list_all line_ok ls"
  shows "reset_pkgrel (descriptor_text ls) =
     descriptor_text (map (\<lambda>l. case l of Release_line old \<Rightarrow> Release_line ''1'' | _ \<Rightarrow> l) ls)"
  unfolding reset_pkgrel_def
proof (rule re_sub_lines[where K = "''pkgrel=''"])
  show "\<forall>s g. m_rest_of_line ''pkgrel='' s = Some g \<longrightarrow> prefix ''pkgrel='' s"
    by (auto dest: m_rest_of_line_prefix)
  show "nl \<notin> set ''pkgrel=''" "''pkgrel='' \<noteq> []" by simp_all
  show "\<forall>l\<in>set ls.
       (\<not> has_sub ''pkgrel='' (line_text l) \<and>
        line_text (case l of Release_line old \<Rightarrow> Release_line ''1'' | _ \<Rightarrow> l) = line_text l) \<or>
       (line_text l \<noteq> [] \<and>
        (\<forall>z. \<exists>g. m_rest_of_line ''pkgrel='' (line_text l @ nl # z) = Some (g, length (line_text l)) \<and>
                 ''pkgrel=1'' = line_text (case l of Release_line old \<Rightarrow> Release_line ''1'' | _ \<Rightarrow> l)))"
  proof
    fix l assume "l \<in> set ls"
    then have l: "line_ok l" using ok by (simp add: list_all_iff)
    show "(\<not> has_sub ''pkgrel='' (line_text l) \<and>
        line_text (case l of Release_line old \<Rightarrow> Release_line ''1'' | _ \<Rightarrow> l) = line_text l) \<or>
       (line_text l \<noteq> [] \<and>
        (\<forall>z. \<exists>g. m_rest_of_line ''pkgrel='' (line_text l @ nl # z) = Some (g, length (line_text l)) \<and>
                 ''pkgrel=1'' = line_text (case l of Release_line old \<Rightarrow> Release_line ''1'' | _ \<Rightarrow> l)))"
    proof (cases "\<exists>v. l = Release_line v")
      case True
      then obtain v where v: "l = Release_line v" by blast
      then have "v \<noteq> []" "nl \<notin> set v" using l by (auto simp: avoids_iff)
      then have "m_rest_of_line ''pkgrel='' (''pkgrel='' @ v @ nl # z)
                   = Some (v, length ''pkgrel='' + length v)" for z
        using m_rest_of_line_value[of v "nl # z" "''pkgrel=''"] by simp
      then show ?thesis using v by simp
    next
      case False
      then have "\<not> has_sub ''pkgrel='' (line_text l)" using no_release_key[OF l] by blast
      then show ?thesis using False by (cases l) auto
    qed
  qed
qed

lemma update_source_lines:
  assumes ok: "list_all line_ok ls"
  shows "update_source u (descriptor_text ls) =
     descriptor_text (map (\<lambda>l. case l of Source_line old \<Rightarrow> Source_line (last (py_split ''packages/'' u))
                                 | _ \<Rightarrow> l) ls)"
proof -
  let ?f = "\<lambda>l. case l of Source_line old \<Rightarrow> Source_line (last (py_split ''packages/'' u)) | _ \<Rightarrow> l"
  have "re_sub m_source_url (\<lambda>(g1, g2). g1 @ last (py_split ''packages/'' u) @ g2) (descriptor_text ls)
          = descriptor_text (map ?f ls)"
  proof (rule re_sub_lines[where K = "''source=(''"])
    show "\<forall>s g. m_source_url s = Some g \<longrightarrow> prefix ''source=('' s"
      by (auto dest: m_source_url_prefix)
    show "nl \<notin> set ''source=(''" "''source=('' \<noteq> []" by simp_all
    show "\<forall>l\<in>set ls.
       (\<not> has_sub ''source=('' (line_text l) \<and> line_text (?f l) = line_text l) \<or>
       (line_text l \<noteq> [] \<and>
        (\<forall>z. \<exists>g. m_source_url (line_text l @ nl # z) = Some (g, length (line_text l)) \<and>
                 (case g of (g1, g2) \<Rightarrow> g1 @ last (py_split ''packages/'' u) @ g2) = line_text (?f l)))"
    proof
      fix l assume "l \<in> set ls"
      then have l: "line_ok l" using ok by (simp add: list_all_iff)
      show "(\<not> has_sub ''source=('' (line_text l) \<and> line_text (?f l) = line_text l) \<or>
       (line_text l \<noteq> [] \<and>
        (\<forall>z. \<exists>g. m_source_url (line_text l @ nl # z) = Some (g, length (line_text l)) \<and>
                 (case g of (g1, g2) \<Rightarrow> g1 @ last (py_split ''packages/'' u) @ g2) = line_text (?f l)))"
      proof (cases "\<exists>v. l = Source_line v")
        case True
        then obtain p where p: "l = Source_line p" by blast
        have "m_source_url (line_text (Source_line p) @ nl # z) =
           Some ((''source=('' @ [dq] @ registry, [dq] @ '')''), length (line_text (Source_line p)))" for z
          using m_source_url_line l p by blast
        then show ?thesis using p by simp
      next
        case False
        then have "\<not> has_sub ''source=('' (line_text l)" using no_source_key[OF l] by blast
        then show ?thesis using False by (cases l) auto
      qed
    qed
  qed
  moreover have "descriptor_text (map ?f ls) = descriptor_text ls"
    if "\<not> has_sub ''source=('' (descriptor_text ls)"
  proof -
    have "\<forall>l\<in>set ls. \<not> has_sub ''source=('' (line_text l)"
      using that has_sub_descriptor_text[of "''source=(''" ls] by simp
    then have "\<forall>l\<in>set ls. ?f l = l" by (auto split: descriptor_line.splits)
    then have "map ?f ls = ls" by (simp add: map_idI)
    then show ?thesis by simp
  qed
  ultimately show ?thesis by (auto simp: update_source_def Let_def)
qed

lemma only_occurrence_at_start:
  assumes p: "prefix K (drop j (K @ y))" and j: "j \<le> length (K @ y)"
    and K: "K \<noteq> []" and y: "last K \<notin> set y"
  shows "j = 0"
proof (rule ccontr)
  assume "j \<noteq> 0"
  then have j0: "0 < j" by simp
  have "length K \<le> length (drop j (K @ y))" using p by (rule prefix_length_le)
  then have fit: "j + length K \<le> length (K @ y)" using j by simp
  have lk: "0 < length K" using K by simp
  define i where "i = j + (length K - 1)"
  have "drop j (K @ y) ! (length K - 1) = last K" using prefix_last_char[OF p K] .
  moreover have "drop j (K @ y) ! (length K - 1) = (K @ y) ! (j + (length K - 1))"
    using j by (rule nth_drop)
  ultimately have "(K @ y) ! i = last K" unfolding i_def by metis
  moreover have fit': "j + length K \<le> length K + length y" using fit by simp
  have "length K \<le> i" "i < length K + length y" using j0 lk fit' unfolding i_def by linarith+
  moreover note this
  ultimately have "y ! (i - length K) = last K" "i - length K < length y"
    by (auto simp: nth_append)
  then show False using y nth_mem by metis
qed

lemma prefix_sentinel_assignment:
  assumes "prefix sentinel (checksum_assignment old @ b)" and "sq \<notin> set old"
  shows "old = ''SKIP''"
proof -
  obtain z where "old @ sq # rparen # b = ''SKIP'' @ sq # rparen # z"
    using assms(1) by (auto simp: sentinel_def checksum_assignment_def prefix_def)
  then have "takeWhile (\<lambda>c. c \<noteq> sq) (old @ sq # rparen # b)
           = takeWhile (\<lambda>c. c \<noteq> sq) (''SKIP'' @ sq # rparen # z)" by simp
  then show ?thesis using takeWhile_until[OF assms(2), of "rparen # b"] by simp
qed

lemma checksum_key_iff:
  assumes "line_ok l"
  shows "has_sub ''sha256sums=('' (line_text l) \<longleftrightarrow> is_checksum_line l"
proof (cases "is_checksum_line l")
  case True
  then obtain h where "l = Checksum_line h" by (cases l) auto
  then have "prefix ''sha256sums=('' (drop 0 (line_text l))" by (simp add: checksum_assignment_def)
  then show ?thesis using True prefix_has_sub by blast
next
  case False
  then have "\<forall>v. l \<noteq> Checksum_line v" by auto
  then show ?thesis using False no_checksum_key[OF assms] by blast
qed

lemma sentinel_in_line_iff:
  assumes "line_ok l"
  shows "has_sub sentinel (line_text l) \<longleftrightarrow> l = Checksum_line ''SKIP''"
proof
  assume s: "has_sub sentinel (line_text l)"
  then have "has_sub ''sha256sums=('' (line_text l)" by (rule has_sub_sentinel)
  then obtain h where h: "l = Checksum_line h" using checksum_key_iff[OF assms] by (cases l) auto
  then have q: "sq \<notin> set h" "CHR ''('' \<notin> set h" using assms by (auto simp: avoids_iff)
  obtain j where j: "j \<le> length (checksum_assignment h)" "prefix sentinel (drop j (checksum_assignment h))"
    using s h by (auto simp: has_sub_iff)
  have c: "checksum_assignment h = ''sha256sums=('' @ (sq # h @ [sq, rparen])"
    by (simp add: checksum_assignment_def)
  have "prefix ''sha256sums=('' (drop j (checksum_assignment h))"
    using j(2) by (auto simp: sentinel_def prefix_def)
  then have "j = 0"
    using only_occurrence_at_start[of "''sha256sums=(''" j "sq # h @ [sq, rparen]"] j(1) q(2)
    unfolding c by simp
  then have "prefix sentinel (checksum_assignment h @ [])" using j(2) by simp
  then have "h = ''SKIP''" using q(1) by (rule prefix_sentinel_assignment)
  then show "l = Checksum_line ''SKIP''" using h by simp
next
  assume "l = Checksum_line ''SKIP''"
  then have "prefix sentinel (drop 0 (line_text l))" by (simp add: sentinel_is_assignment)
  then show "has_sub sentinel (line_text l)" using prefix_has_sub by blast
qed

lemma checksum_in_text_iff:
  assumes "list_all line_ok ls"
  shows "has_sub ''sha256sums=('' (descriptor_text ls) \<longleftrightarrow> list_ex is_checksum_line ls"
    and "has_sub sentinel (descriptor_text ls) \<longleftrightarrow> Checksum_line ''SKIP'' \<in> set ls"
proof -
  have ok: "\<And>l. l \<in> set ls \<Longrightarrow> line_ok l" using assms by (simp add: list_all_iff)
  have "has_sub ''sha256sums=('' (descriptor_text ls) \<longleftrightarrow> (\<exists>l\<in>set ls. has_sub ''sha256sums=('' (line_text l))"
    by (rule has_sub_descriptor_text) simp_all
  then show "has_sub ''sha256sums=('' (descriptor_text ls) \<longleftrightarrow> list_ex is_checksum_line ls"
    using ok checksum_key_iff by (auto simp: list_ex_iff)
  have "has_sub sentinel (descriptor_text ls) \<longleftrightarrow> (\<exists>l\<in>set ls. has_sub sentinel (line_text l))"
    by (rule has_sub_descriptor_text) (simp_all add: sentinel_def)
  then show "has_sub sentinel (descriptor_text ls) \<longleftrightarrow> Checksum_line ''SKIP'' \<in> set ls"
    using ok sentinel_in_line_iff by auto
qed

lemma re_search_skip_line:
  assumes key: "\<forall>s g. m s = Some g \<longrightarrow> prefix K s" and nl: "nl \<notin> set K"
    and none: "\<not> has_sub K t"
  shows "re_search m (t @ nl # z) =
     (case re_search m z of Some (i, g, n) \<Rightarrow> Some (length t + 1 + i, g, n) | None \<Rightarrow> None)"
  using none
proof (induction t)
  case Nil
  have "K \<noteq> []" using Nil by auto
  then have "\<not> prefix K (nl # z)" using nl by (cases K) auto
  then have "m (nl # z) = None" using key by (cases "m (nl # z)") auto
  then show ?case by (auto split: option.splits)
next
  case (Cons c t)
  have "\<not> prefix K ((c # t) @ nl # z)"
  proof
    assume "prefix K ((c # t) @ nl # z)"
    then have "prefix K (c # t)" using nl by (rule prefix_before_char)
    then show False using Cons.prems by simp
  qed
  then have "m (c # t @ nl # z) = None" using key by (cases "m (c # t @ nl # z)") auto
  moreover have "\<not> has_sub K t" using Cons.prems by simp
  ultimately show ?case using Cons.IH by (auto split: option.splits)
qed

lemma insert_checksum_lines:
  assumes ok: "list_all line_ok ls"
  shows "(case re_search (m_array ''source=('') (descriptor_text ls) of
            Some (start, body, n) \<Rightarrow>
              take (start + n) (descriptor_text ls) @ [nl] @ checksum_assignment h
              @ drop (start + n) (descriptor_text ls)
          | None \<Rightarrow> descriptor_text ls)
         = descriptor_text (insert_after_source (Checksum_line h) ls)"
  using ok
proof (induction ls)
  case Nil
  then show ?case by (simp add: descriptor_text_def m_array_def)
next
  case (Cons l ls)
  let ?S = "''source=(''"
  define T where "T = descriptor_text ls"
  define t where "t = line_text l"
  have d: "descriptor_text (l # ls) = t @ nl # T" by (simp add: descriptor_text_def T_def t_def)
  have l: "line_ok l" and ls: "list_all line_ok ls" using Cons.prems by simp_all
  have IH: "(case re_search (m_array ?S) T of
            Some (start, body, n) \<Rightarrow> take (start + n) T @ [nl] @ checksum_assignment h @ drop (start + n) T
          | None \<Rightarrow> T)
         = descriptor_text (insert_after_source (Checksum_line h) ls)"
    using Cons.IH[OF ls] unfolding T_def .
  show ?case
  proof (cases "\<exists>p. l = Source_line p")
    case True
    then obtain p where p: "l = Source_line p" by blast
    define body where "body = dq # registry @ p @ [dq]"
    have "\<forall>c\<in>set p. c \<noteq> rparen" using l p by (auto simp: avoids_iff)
    then have b: "body \<noteq> []" "rparen \<notin> set body" by (auto simp: body_def registry_def)
    have tb: "t = ?S @ body @ [rparen]" by (simp add: t_def p body_def)
    have "m_array ?S (?S @ body @ rparen # (nl # T)) = Some (body, length ?S + length body + 1)"
      by (rule m_array_value[OF b])
    then have m: "m_array ?S (t @ nl # T) = Some (body, length t)" by (simp add: tb)
    have tne: "t \<noteq> []" by (simp add: tb)
    then obtain c cs where c: "t @ nl # T = c # cs" by (cases t) auto
    have "re_search (m_array ?S) (t @ nl # T) = Some (0, body, length t)"
      using m unfolding c by simp
    then have "(case re_search (m_array ?S) (t @ nl # T) of
            Some (start, body, n) \<Rightarrow>
              take (start + n) (t @ nl # T) @ [nl] @ checksum_assignment h @ drop (start + n) (t @ nl # T)
          | None \<Rightarrow> t @ nl # T) = t @ [nl] @ checksum_assignment h @ nl # T"
      by simp
    moreover have "descriptor_text (insert_after_source (Checksum_line h) (l # ls))
        = t @ [nl] @ checksum_assignment h @ nl # T"
      by (simp add: p descriptor_text_def T_def t_def)
    ultimately show ?thesis unfolding d by simp
  next
    case False
    then have n: "\<not> has_sub ?S t" using no_source_key[OF l] by (auto simp: t_def)
    have k: "\<forall>s g. m_array ?S s = Some g \<longrightarrow> prefix ?S s" by (auto dest: m_array_prefix)
    have s: "re_search (m_array ?S) (t @ nl # T) =
       (case re_search (m_array ?S) T of Some (i, g, n) \<Rightarrow> Some (length t + 1 + i, g, n) | None \<Rightarrow> None)"
      by (rule re_search_skip_line[OF k _ n]) simp
    have i: "insert_after_source (Checksum_line h) (l # ls) = l # insert_after_source (Checksum_line h) ls"
      using False by (cases l) auto
    have r: "descriptor_text (insert_after_source (Checksum_line h) (l # ls))
        = t @ nl # descriptor_text (insert_after_source (Checksum_line h) ls)"
      unfolding i by (simp add: descriptor_text_def t_def)
    show ?thesis
    proof (cases "re_search (m_array ?S) T")
      case None
      then show ?thesis unfolding d r using s IH by simp
    next
      case (Some r3)
      obtain i g n where r3: "r3 = (i, g, n)" by (cases r3) auto
      have "take (length t + 1 + i + n) (t @ nl # T) = t @ nl # take (i + n) T"
        "drop (length t + 1 + i + n) (t @ nl # T) = drop (i + n) T"
        by simp_all
      then show ?thesis unfolding d r using s IH Some r3 by simp
    qed
  qed
qed

lemma update_sha256_lines:
  assumes ok: "list_all line_ok ls" and excl: "sentinel_exclusive ls"
  shows "update_sha256 h (descriptor_text ls) =
     descriptor_text
       (if list_ex is_checksum_line ls
        then map (\<lambda>l. case l of Checksum_line old \<Rightarrow> Checksum_line h | _ \<Rightarrow> l) ls
        else insert_after_source (Checksum_line h) ls)"
proof -
  let ?K = "''sha256sums=(''"
  let ?f = "\<lambda>l. case l of Checksum_line old \<Rightarrow> Checksum_line h | _ \<Rightarrow> l"
  have okl: "\<And>l. l \<in> set ls \<Longrightarrow> line_ok l" using ok by (simp add: list_all_iff)
  note occ = checksum_in_text_iff[OF ok]
  show ?thesis
  proof (cases "Checksum_line ''SKIP'' \<in> set ls")
    case True
    then have all: "\<And>l. l \<in> set ls \<Longrightarrow> is_checksum_line l \<Longrightarrow> l = Checksum_line ''SKIP''"
      using excl by (auto simp: sentinel_exclusive_def list_all_iff)
    have "is_checksum_line (Checksum_line ''SKIP'')" by simp
    then have ex: "list_ex is_checksum_line ls" using True unfolding list_ex_iff by blast
    have "re_sub (m_literal sentinel) (\<lambda>_. checksum_assignment h) (descriptor_text ls)
            = descriptor_text (map ?f ls)"
    proof (rule re_sub_lines[where K = sentinel])
      show "\<forall>s g. m_literal sentinel s = Some g \<longrightarrow> prefix sentinel s"
        by (auto simp: m_literal_def split: if_splits)
      show "nl \<notin> set sentinel" "sentinel \<noteq> []" by (simp_all add: sentinel_def)
      show "\<forall>l\<in>set ls.
         (\<not> has_sub sentinel (line_text l) \<and> line_text (?f l) = line_text l) \<or>
         (line_text l \<noteq> [] \<and>
          (\<forall>z. \<exists>g. m_literal sentinel (line_text l @ nl # z) = Some (g, length (line_text l)) \<and>
                   checksum_assignment h = line_text (?f l)))"
      proof
        fix l assume l: "l \<in> set ls"
        show "(\<not> has_sub sentinel (line_text l) \<and> line_text (?f l) = line_text l) \<or>
         (line_text l \<noteq> [] \<and>
          (\<forall>z. \<exists>g. m_literal sentinel (line_text l @ nl # z) = Some (g, length (line_text l)) \<and>
                   checksum_assignment h = line_text (?f l)))"
        proof (cases "l = Checksum_line ''SKIP''")
          case True
          then have t: "line_text l = sentinel" by (simp add: sentinel_is_assignment)
          have "sentinel \<noteq> []" by (simp add: sentinel_def)
          then show ?thesis using True t m_literal_self[of sentinel] by simp
        next
          case False
          then have "\<not> is_checksum_line l" using all[OF l] by blast
          then have "?f l = l" by (cases l) auto
          moreover have "\<not> has_sub sentinel (line_text l)"
            using False sentinel_in_line_iff[OF okl[OF l]] by simp
          ultimately show ?thesis by simp
        qed
      qed
    qed
    then show ?thesis using True ex occ(2) by (simp add: update_sha256_def)
  next
    case False
    then have ns: "\<not> has_sub sentinel (descriptor_text ls)" using occ(2) by simp
    show ?thesis
    proof (cases "list_ex is_checksum_line ls")
      case True
      have "re_sub m_quoted_checksum (\<lambda>_. checksum_assignment h) (descriptor_text ls)
              = descriptor_text (map ?f ls)"
      proof (rule re_sub_lines[where K = ?K])
        show "\<forall>s g. m_quoted_checksum s = Some g \<longrightarrow> prefix ?K s"
          by (auto dest: m_quoted_checksum_prefix)
        show "nl \<notin> set ?K" "?K \<noteq> []" by simp_all
        show "\<forall>l\<in>set ls.
           (\<not> has_sub ?K (line_text l) \<and> line_text (?f l) = line_text l) \<or>
           (line_text l \<noteq> [] \<and>
            (\<forall>z. \<exists>g. m_quoted_checksum (line_text l @ nl # z) = Some (g, length (line_text l)) \<and>
                     checksum_assignment h = line_text (?f l)))"
        proof
          fix l assume l: "l \<in> set ls"
          show "(\<not> has_sub ?K (line_text l) \<and> line_text (?f l) = line_text l) \<or>
           (line_text l \<noteq> [] \<and>
            (\<forall>z. \<exists>g. m_quoted_checksum (line_text l @ nl # z) = Some (g, length (line_text l)) \<and>
                     checksum_assignment h = line_text (?f l)))"
          proof (cases "is_checksum_line l")
            case True
            then obtain old where old: "l = Checksum_line old" by (cases l) auto
            then have "sq \<notin> set old" using okl[OF l] by (auto simp: avoids_iff)
            then have "m_quoted_checksum (checksum_assignment old @ nl # z)
                         = Some ((), length (checksum_assignment old))" for z
              by (rule m_quoted_checksum_assignment)
            moreover have "checksum_assignment old \<noteq> []" by (simp add: checksum_assignment_def)
            ultimately show ?thesis using old by simp
          next
            case False
            then have "?f l = l" by (cases l) auto
            moreover have "\<not> has_sub ?K (line_text l)"
              using False checksum_key_iff[OF okl[OF l]] by simp
            ultimately show ?thesis by simp
          qed
        qed
      qed
      then show ?thesis using True ns occ(1) by (simp add: update_sha256_def)
    next
      case False
      then have "\<not> has_sub ?K (descriptor_text ls)" using occ(1) by simp
      then have "update_sha256 h (descriptor_text ls) =
          (case re_search (m_array ''source=('') (descriptor_text ls) of
             Some (start, body, n) \<Rightarrow>
               take (start + n) (descriptor_text ls) @ [nl] @ checksum_assignment h
               @ drop (start + n) (descriptor_text ls)
           | None \<Rightarrow> descriptor_text ls)"
        using ns by (simp add: update_sha256_def Let_def split: option.splits)
      then show ?thesis
        using False insert_checksum_lines[OF ok, of h] by simp
    qed
  qed
qed

section \<open>A whole update, and a second one\<close>

lemma hex_digit_plain:
  assumes "c \<in> set ''0123456789abcdef''"
  shows "c \<notin> set [nl, CHR ''='', CHR ''('', sq]"
  using assms by auto

lemma hex_digest_line_ok:
  assumes "is_hex_digest h"
  shows "line_ok (Checksum_line h)"
proof -
  have "\<forall>c\<in>set h. c \<in> set ''0123456789abcdef''"
    using assms unfolding is_hex_digest_def list_all_iff .
  then have "\<forall>c\<in>set h. c \<notin> set [nl, CHR ''='', CHR ''('', sq]"
    using hex_digit_plain by blast
  then show ?thesis unfolding line_ok.simps avoids_def list_all_iff .
qed

lemma hex_digest_not_sentinel:
  assumes "is_hex_digest h"
  shows "h \<noteq> ''SKIP''"
proof
  assume "h = ''SKIP''"
  then have "is_hex_digest ''SKIP''" using assms by simp
  then show False by (simp add: is_hex_digest_def)
qed

lemma release_one_ok: "line_ok (Release_line ''1'')"
  by (simp add: avoids_def)

lemma updated_line_ok:
  assumes "line_ok l" and "line_ok (Version_line v)" and "line_ok (Source_line path)"
    and "line_ok (Checksum_line h)"
  shows "line_ok (updated_line v path h l)"
proof (cases l)
  case (Version_line x)
  then show ?thesis using assms(2) by simp
next
  case (Release_line x)
  then show ?thesis using release_one_ok by simp
next
  case (Source_line x)
  then show ?thesis using assms(3) by simp
next
  case (Checksum_line x)
  then show ?thesis using assms(4) by simp
next
  case (Other_line x)
  then show ?thesis using assms(1) by simp
qed

lemma set_insert_after_source: "set (insert_after_source c ls) \<subseteq> insert c (set ls)"
  by (induction c ls rule: insert_after_source.induct) auto

lemma updated_lines_members:
  assumes "l \<in> set (updated_lines v path h ls)"
  shows "l = Checksum_line h \<or> (\<exists>k\<in>set ls. l = updated_line v path h k)"
proof (cases "list_ex is_checksum_line ls")
  case True
  then show ?thesis using assms by (auto simp: updated_lines_def)
next
  case False
  then have "l \<in> set (insert_after_source (Checksum_line h) (map (updated_line v path h) ls))"
    using assms by (simp add: updated_lines_def)
  then have "l \<in> insert (Checksum_line h) (set (map (updated_line v path h) ls))"
    using set_insert_after_source[of "Checksum_line h" "map (updated_line v path h) ls"] by blast
  then show ?thesis by auto
qed

lemma updated_lines_ok:
  assumes "list_all line_ok ls" and "line_ok (Version_line v)" and "line_ok (Source_line path)"
    and "is_hex_digest h"
  shows "list_all line_ok (updated_lines v path h ls)"
proof -
  have c: "line_ok (Checksum_line h)" using assms(4) by (rule hex_digest_line_ok)
  have "line_ok l" if mem: "l \<in> set (updated_lines v path h ls)" for l
  proof -
    consider "l = Checksum_line h" | k where "k \<in> set ls" "l = updated_line v path h k"
      using updated_lines_members[OF mem] by blast
    then show ?thesis
    proof cases
      case 1
      then show ?thesis using c by simp
    next
      case 2
      then have "line_ok k" using assms(1) unfolding list_all_iff by blast
      then show ?thesis unfolding 2(2) using assms(2,3) c by (rule updated_line_ok)
    qed
  qed
  then show ?thesis unfolding list_all_iff by blast
qed

lemma updated_lines_checksums:
  assumes "l \<in> set (updated_lines v path h ls)" and "is_checksum_line l"
  shows "l = Checksum_line h"
proof -
  have "is_checksum_line (updated_line v path h k) \<Longrightarrow> updated_line v path h k = Checksum_line h" for k
    by (cases k) auto
  then show ?thesis using updated_lines_members[OF assms(1)] assms(2) by auto
qed

lemma updated_lines_exclusive:
  assumes "is_hex_digest h"
  shows "sentinel_exclusive (updated_lines v path h ls)"
proof -
  have "Checksum_line ''SKIP'' \<notin> set (updated_lines v path h ls)"
  proof
    assume "Checksum_line ''SKIP'' \<in> set (updated_lines v path h ls)"
    then have "Checksum_line ''SKIP'' = Checksum_line h" by (rule updated_lines_checksums) simp
    then show False using hex_digest_not_sentinel[OF assms] by simp
  qed
  then show ?thesis by (simp add: sentinel_exclusive_def)
qed

lemma updated_line_twice [simp]:
  "updated_line v path h (updated_line v path h l) = updated_line v path h l"
  by (cases l) auto

lemma is_checksum_updated_line [simp]:
  "is_checksum_line (updated_line v path h l) = is_checksum_line l"
  by (cases l) auto

lemma list_ex_checksum_updated [simp]:
  "list_ex is_checksum_line (map (updated_line v path h) ls) = list_ex is_checksum_line ls"
  by (simp add: list_ex_iff)

lemma insert_after_source_cases:
  "insert_after_source (Checksum_line h) ls = ls \<or>
   list_ex is_checksum_line (insert_after_source (Checksum_line h) ls)"
  by (induction "Checksum_line h" ls rule: insert_after_source.induct) auto

lemma map_updated_insert:
  "map (updated_line v path h) (insert_after_source (Checksum_line h) ls)
     = insert_after_source (Checksum_line h) (map (updated_line v path h) ls)"
  by (induction "Checksum_line h" ls rule: insert_after_source.induct) auto

lemma updated_lines_twice:
  "updated_lines v path h (updated_lines v path h ls) = updated_lines v path h ls"
proof (cases "list_ex is_checksum_line ls")
  case True
  then show ?thesis by (simp add: updated_lines_def)
next
  case False
  define ms where "ms = map (updated_line v path h) ls"
  have m: "map (updated_line v path h) ms = ms" by (simp add: ms_def)
  have n: "\<not> list_ex is_checksum_line ms" using False by (simp add: ms_def)
  have u: "updated_lines v path h ls = insert_after_source (Checksum_line h) ms"
    using False by (simp add: updated_lines_def ms_def)
  have i: "map (updated_line v path h) (insert_after_source (Checksum_line h) ms)
      = insert_after_source (Checksum_line h) ms"
    using map_updated_insert[of v path h ms] m by simp
  show ?thesis
  proof (cases "list_ex is_checksum_line (insert_after_source (Checksum_line h) ms)")
    case True
    then show ?thesis unfolding u using i by (simp add: updated_lines_def)
  next
    case False
    then have e: "insert_after_source (Checksum_line h) ms = ms"
      using insert_after_source_cases[of h ms] by blast
    show ?thesis unfolding u e using n m e by (simp add: updated_lines_def)
  qed
qed

lemma rewrite_lines:
  assumes ok: "list_all line_ok ls" and excl: "sentinel_exclusive ls"
    and v: "line_ok (Version_line v)"
    and path: "line_ok (Source_line (last (py_split ''packages/'' (pi_url info))))"
  shows "rewrite v info (descriptor_text ls) =
     descriptor_text (updated_lines v (last (py_split ''packages/'' (pi_url info))) (pi_sha256 info) ls)"
proof -
  let ?p = "last (py_split ''packages/'' (pi_url info))" and ?h = "pi_sha256 info"
  let ?f1 = "\<lambda>l. case l of Version_line old \<Rightarrow> Version_line v | _ \<Rightarrow> l"
  let ?f2 = "\<lambda>l. case l of Release_line old \<Rightarrow> Release_line ''1'' | _ \<Rightarrow> l"
  let ?f3 = "\<lambda>l. case l of Source_line old \<Rightarrow> Source_line ?p | _ \<Rightarrow> l"
  let ?f4 = "\<lambda>l. case l of Checksum_line old \<Rightarrow> Checksum_line ?h | _ \<Rightarrow> l"
  define l1 where "l1 = map ?f1 ls"
  define l2 where "l2 = map ?f2 l1"
  define l3 where "l3 = map ?f3 l2"
  have okl: "\<And>l. l \<in> set ls \<Longrightarrow> line_ok l" using ok by (simp add: list_all_iff)
  have "line_ok (?f1 l)" if "line_ok l" for l using that v by (cases l) simp_all
  then have ok1: "list_all line_ok l1" using okl unfolding l1_def by (simp add: list_all_iff)
  then have okl1: "\<And>l. l \<in> set l1 \<Longrightarrow> line_ok l" by (simp add: list_all_iff)
  have "line_ok (?f2 l)" if "line_ok l" for l using that release_one_ok by (cases l) simp_all
  then have ok2: "list_all line_ok l2" using okl1 unfolding l2_def by (simp add: list_all_iff)
  then have okl2: "\<And>l. l \<in> set l2 \<Longrightarrow> line_ok l" by (simp add: list_all_iff)
  have "line_ok (?f3 l)" if "line_ok l" for l using that path by (cases l) simp_all
  then have ok3: "list_all line_ok l3" using okl2 unfolding l3_def by (simp add: list_all_iff)
  define g where "g = (\<lambda>l. ?f3 (?f2 (?f1 l)))"
  have g: "g (Version_line x) = Version_line v" "g (Release_line x) = Release_line ''1''"
    "g (Source_line x) = Source_line ?p" "g (Checksum_line x) = Checksum_line x"
    "g (Other_line x) = Other_line x" for x
    by (simp_all add: g_def)
  have l3: "l3 = map g ls"
    unfolding l3_def l2_def l1_def map_map comp_def g_def ..
  have same: "is_checksum_line l \<Longrightarrow> g l = l"
    "\<not> is_checksum_line l \<Longrightarrow> \<not> is_checksum_line (g l)" for l
    by (cases l; simp add: g)+
  have mem: "Checksum_line ''SKIP'' \<in> set l3 \<longleftrightarrow> Checksum_line ''SKIP'' \<in> set ls"
  proof
    assume "Checksum_line ''SKIP'' \<in> set l3"
    then obtain l where l: "l \<in> set ls" "Checksum_line ''SKIP'' = g l"
      unfolding l3 by auto
    then have "is_checksum_line l" using same(2)[of l] by (metis is_checksum_line.simps(1))
    then show "Checksum_line ''SKIP'' \<in> set ls" using l same(1)[of l] by simp
  next
    assume a: "Checksum_line ''SKIP'' \<in> set ls"
    have "g (Checksum_line ''SKIP'') = Checksum_line ''SKIP''" by (simp add: g)
    then show "Checksum_line ''SKIP'' \<in> set l3" unfolding l3 using a by force
  qed
  have excl3: "sentinel_exclusive l3"
  proof (cases "Checksum_line ''SKIP'' \<in> set ls")
    case False
    then show ?thesis using mem by (simp add: sentinel_exclusive_def)
  next
    case True
    then have all: "\<And>l. l \<in> set ls \<Longrightarrow> is_checksum_line l \<Longrightarrow> l = Checksum_line ''SKIP''"
      using excl by (auto simp: sentinel_exclusive_def list_all_iff)
    have "\<not> is_checksum_line k \<or> k = Checksum_line ''SKIP''" if k: "k \<in> set l3" for k
    proof -
      obtain l where l: "l \<in> set ls" "k = g l" using k unfolding l3 by auto
      show ?thesis
      proof (cases "is_checksum_line l")
        case True
        then show ?thesis using all[OF l(1)] same(1)[of l] l(2) by simp
      next
        case False
        then show ?thesis using same(2)[of l] l(2) by simp
      qed
    qed
    then show ?thesis by (simp add: sentinel_exclusive_def list_all_iff)
  qed
  have ex: "list_ex is_checksum_line l3 \<longleftrightarrow> list_ex is_checksum_line ls"
  proof
    assume "list_ex is_checksum_line l3"
    then obtain l where "l \<in> set ls" "is_checksum_line (g l)" unfolding l3 list_ex_iff by auto
    then show "list_ex is_checksum_line ls" using same(2)[of l] unfolding list_ex_iff by blast
  next
    assume "list_ex is_checksum_line ls"
    then obtain l where l: "l \<in> set ls" "is_checksum_line l" unfolding list_ex_iff by auto
    have "g l \<in> set l3" using l(1) unfolding l3 by simp
    moreover have "is_checksum_line (g l)" using same(1)[OF l(2)] l(2) by simp
    ultimately show "list_ex is_checksum_line l3" unfolding list_ex_iff by blast
  qed
  have "rewrite v info (descriptor_text ls) = update_sha256 ?h (descriptor_text l3)"
    unfolding rewrite_def l3_def l2_def l1_def
    using update_version_lines[OF ok, of v] reset_pkgrel_lines[OF ok1]
      update_source_lines[OF ok2, of "pi_url info"]
    by (simp add: l1_def l2_def)
  also have "\<dots> = descriptor_text
       (if list_ex is_checksum_line l3 then map ?f4 l3 else insert_after_source (Checksum_line ?h) l3)"
    by (rule update_sha256_lines[OF ok3 excl3])
  also have "(if list_ex is_checksum_line l3 then map ?f4 l3 else insert_after_source (Checksum_line ?h) l3)
      = updated_lines v ?p ?h ls"
  proof (cases "list_ex is_checksum_line ls")
    case True
    have "?f4 (g l) = updated_line v ?p ?h l" for l by (cases l) (simp_all add: g)
    then have "map ?f4 l3 = map (updated_line v ?p ?h) ls" unfolding l3 by simp
    then show ?thesis using True ex by (simp add: updated_lines_def)
  next
    case False
    then have "\<And>l. l \<in> set ls \<Longrightarrow> \<not> is_checksum_line l" by (simp add: list_ex_iff)
    moreover have "\<not> is_checksum_line l \<Longrightarrow> g l = updated_line v ?p ?h l" for l
      by (cases l) (simp_all add: g)
    ultimately have "l3 = map (updated_line v ?p ?h) ls" unfolding l3 by simp
    then show ?thesis using False ex by (simp add: updated_lines_def)
  qed
  finally show ?thesis .
qed

lemma rewrite_twice_lines:
  assumes ok: "list_all line_ok ls" and excl: "sentinel_exclusive ls"
    and v: "line_ok (Version_line v)"
    and path: "line_ok (Source_line (last (py_split ''packages/'' (pi_url info))))"
    and hex: "is_hex_digest (pi_sha256 info)"
  shows "rewrite v info (rewrite v info (descriptor_text ls)) = rewrite v info (descriptor_text ls)"
proof -
  let ?p = "last (py_split ''packages/'' (pi_url info))" and ?h = "pi_sha256 info"
  have 1: "rewrite v info (descriptor_text ls) = descriptor_text (updated_lines v ?p ?h ls)"
    by (rule rewrite_lines[OF ok excl v path])
  have "rewrite v info (descriptor_text (updated_lines v ?p ?h ls))
      = descriptor_text (updated_lines v ?p ?h (updated_lines v ?p ?h ls))"
    by (rule rewrite_lines[OF updated_lines_ok[OF ok v path hex] updated_lines_exclusive[OF hex] v path])
  then show ?thesis unfolding 1 by (simp add: updated_lines_twice)
qed

lemma get_package_info_fst:
  "fst (get_package_info e v p) =
     (case index_record e v of
        Failed msg \<Rightarrow> None
      | Fetched fs \<Rightarrow>
          (case first_sdist fs of
             None \<Rightarrow> None
           | Some f \<Rightarrow> Some \<lparr>pi_url = url f, pi_sha256 = digest_sha256 f\<rparr>))"
  by (simp add: get_package_info_def Let_def split: fetch.splits option.splits)

lemma verify_checksum_fst:
  "fst (verify_checksum e u h p) =
     (case download e u of Failed msg \<Rightarrow> False | Fetched content \<Rightarrow> h = sha256_hexdigest e content)"
  by (simp add: verify_checksum_def Let_def split: fetch.splits)

lemma update_pkgbuild_fst:
  "fst (update_pkgbuild e v info p) \<longleftrightarrow> files p ''PKGBUILD'' \<noteq> None \<and> write_error e ''PKGBUILD'' = None"
  by (auto simp: update_pkgbuild_def split: option.splits)

lemma updater_main_zero_iff:
  "fst (updater_main e v verify p) = 0 \<longleftrightarrow>
     (\<exists>info. fst (get_package_info e v p) = Some info \<and>
        (verify \<longrightarrow> fst (verify_checksum e (pi_url info) (pi_sha256 info) p)) \<and>
        files p ''PKGBUILD'' \<noteq> None \<and> write_error e ''PKGBUILD'' = None)"
proof (cases "get_package_info e v (print (''Updating PKGBUILD to version '' @ v) p)")
  case (Pair r p1)
  have r: "r = fst (get_package_info e v p)"
    using Pair get_package_info_fst[of e v p]
      get_package_info_fst[of e v "print (''Updating PKGBUILD to version '' @ v) p"] by simp
  have "files (snd (r, p1)) = files p" unfolding Pair[symmetric] by simp
  then have f1: "files p1 = files p" by simp
  show ?thesis
  proof (cases r)
    case None
    then show ?thesis using Pair r by (simp add: updater_main_cases)
  next
    case (Some info)
    define p2 where "p2 = print (''SHA256: '' @ pi_sha256 info) (print (''Download URL: '' @ pi_url info) p1)"
    define r2 where "r2 = (if verify then verify_checksum e (pi_url info) (pi_sha256 info) p2 else (True, p2))"
    have f2: "files (snd r2) = files p" using f1 by (simp add: r2_def p2_def)
    have v2: "fst r2 \<longleftrightarrow> (verify \<longrightarrow> fst (verify_checksum e (pi_url info) (pi_sha256 info) p))"
      by (simp add: r2_def verify_checksum_fst)
    have m: "updater_main e v verify p =
       (if \<not> fst r2 then (1, snd r2)
        else (case update_pkgbuild e v info (snd r2) of
                (False, p4) \<Rightarrow> (1, p4)
              | (True, p4) \<Rightarrow> (0, print (check_mark @ '' Successfully updated to version '' @ v) p4)))"
      using Pair Some by (simp add: updater_main_cases Let_def r2_def p2_def)
    obtain ok p4 where u: "update_pkgbuild e v info (snd r2) = (ok, p4)" by fastforce
    have ok: "ok \<longleftrightarrow> files p ''PKGBUILD'' \<noteq> None \<and> write_error e ''PKGBUILD'' = None"
      using update_pkgbuild_fst[of e v info "snd r2"] u f2 by simp
    have "fst (updater_main e v verify p) = 0 \<longleftrightarrow> fst r2 \<and> ok"
      unfolding m using u by (cases ok) auto
    then show ?thesis using v2 ok Some r by auto
  qed
qed

lemma updater_twice_files:
  assumes z: "fst (updater_main e v verify p) = 0"
    and c: "files p ''PKGBUILD'' = Some content"
    and i: "fst (get_package_info e v p) = Some info"
  shows "fst (updater_main e v verify (snd (updater_main e v verify p))) = 0"
    and "files (snd (updater_main e v verify p)) = (files p)(''PKGBUILD'' \<mapsto> rewrite v info content)"
    and "files (snd (updater_main e v verify (snd (updater_main e v verify p))))
           = (files p)(''PKGBUILD'' \<mapsto> rewrite v info (rewrite v info content))"
proof -
  let ?p1 = "snd (updater_main e v verify p)"
  have gi: "fst (get_package_info e v q) = Some info" for q
    using i by (simp add: get_package_info_fst)
  have vc: "fst (verify_checksum e u h q) = fst (verify_checksum e u h p)" for u h q
    by (simp add: verify_checksum_fst)
  from updater_zero_files[OF z] obtain content' info' where
    a: "files p ''PKGBUILD'' = Some content'"
    "fst (get_package_info e v (print (''Updating PKGBUILD to version '' @ v) p)) = Some info'"
    "files ?p1 = (files p)(''PKGBUILD'' \<mapsto> rewrite v info' content')"
    by blast
  then show f1: "files ?p1 = (files p)(''PKGBUILD'' \<mapsto> rewrite v info content)"
    using c gi by simp
  have "files ?p1 ''PKGBUILD'' \<noteq> None" using f1 by simp
  then show z2: "fst (updater_main e v verify ?p1) = 0"
    using z unfolding updater_main_zero_iff[of e v verify p] updater_main_zero_iff[of e v verify ?p1]
    using gi vc by auto
  from updater_zero_files[OF z2] obtain content'' info'' where
    b: "files ?p1 ''PKGBUILD'' = Some content''"
    "fst (get_package_info e v (print (''Updating PKGBUILD to version '' @ v) ?p1)) = Some info''"
    "files (snd (updater_main e v verify ?p1)) = (files ?p1)(''PKGBUILD'' \<mapsto> rewrite v info'' content'')"
    by blast
  then have "content'' = rewrite v info content" "info'' = info" using f1 gi by simp_all
  then show "files (snd (updater_main e v verify ?p1))
           = (files p)(''PKGBUILD'' \<mapsto> rewrite v info (rewrite v info content))"
    using b(3) f1 by simp
qed

text \<open>
  A descriptor in which the registry prefix does not occur keeps its text in the
  source step, and a hexadecimal digest makes a replacement template that stands for
  itself.
\<close>

lemma has_sub_append_left:
  assumes "has_sub p a"
  shows "has_sub p (a @ b)"
proof -
  obtain i where i: "i \<le> length a" "prefix p (drop i a)" using assms by (auto simp: has_sub_iff)
  then have "prefix p (drop i a @ b)" using prefix_prefix by blast
  then have "prefix p (drop i (a @ b))" using i(1) by simp
  moreover have "i \<le> length (a @ b)" using i(1) by simp
  ultimately show ?thesis by (rule prefix_has_sub)
qed

lemma update_source_no_registry:
  assumes "\<not> has_sub registry content"
  shows "update_source u content = content"
proof -
  have "m_source_url (drop i content) = None" if i: "i \<le> length content" for i
  proof (cases "m_source_url (drop i content)")
    case (Some r)
    let ?s = "drop i content"
    define body where "body = takeWhile (\<lambda>c. c \<noteq> rparen) (drop 8 ?s)"
    have p: "prefix ''source=('' ?s" using Some by (rule m_source_url_prefix)
    then have "last_registry body \<noteq> None"
      using Some by (auto simp: m_source_url_def Let_def body_def split: if_splits option.splits)
    then have "has_sub registry body" using last_registry_has_sub by auto
    moreover have "drop 8 ?s = body @ dropWhile (\<lambda>c. c \<noteq> rparen) (drop 8 ?s)"
      by (simp add: body_def)
    ultimately have "has_sub registry (drop 8 ?s)"
      using has_sub_append_left by metis
    then have "has_sub registry ?s" by (rule has_sub_drop)
    then have "has_sub registry content" by (rule has_sub_drop)
    then show ?thesis using assms by simp
  qed simp
  then have "re_sub m_source_url (\<lambda>(g1, g2). g1 @ last (py_split ''packages/'' u) @ g2) content = content"
    by (intro re_sub_no_match) simp
  then show ?thesis by (simp add: update_source_def Let_def)
qed

lemma hex_digest_template_literal:
  assumes "is_hex_digest h"
  shows "template_literal (checksum_assignment h)"
  using hex_digest_chars[OF assms] by (auto simp: template_literal_def checksum_assignment_def)

lemma get_package_info_digest:
  assumes "fst (get_package_info e v p) = Some info"
  shows "\<exists>fs f. index_record e v = Fetched fs \<and> first_sdist fs = Some f \<and>
           pi_url info = url f \<and> pi_sha256 info = digest_sha256 f"
  using assms by (auto simp: get_package_info_fst split: fetch.splits option.splits)

lemma verified_env_info: "fst (get_package_info verified_env v p) = Some sample_info"
  by (simp add: get_package_info_fst verified_env_def sample_wheel_def sample_sdist_def sample_info_def)

lemma verified_env_run:
  "fst (updater_main verified_env v True (proc_of text)) = 0"
  unfolding updater_main_zero_iff
  by (simp add: verified_env_info verify_checksum_fst)
     (simp add: verified_env_def sample_info_def sample_sdist_def proc_of_def)

section \<open>The checksum assignment after a successful run\<close>

text \<open>
  C1 (as amended). After a successful run the descriptor holds the text of the
  checksum step, applied with the digest the index reports for the first source
  distribution to the text \<open>c\<close> that the version, release and source steps leave.
  For a digest of hexadecimal digits: the sentinel branch is taken whenever the
  sentinel occurs in \<open>c\<close>; when the only checksum assignment of \<open>c\<close> is one value in
  single quotes (the sentinel \<open>sha256sums=('SKIP')\<close> is the case \<open>old = ''SKIP''\<close>), it
  is replaced in place; when \<open>c\<close> has no checksum assignment and a source assignment
  that is not empty, the new assignment is put on a line of its own right after the
  first source assignment; in both cases the descriptor holds exactly one checksum
  assignment, with the digest. When \<open>c\<close> has neither a checksum nor a source
  assignment, the descriptor is \<open>c\<close>.
\<close>

theorem updater_checksum_outcomes:
  assumes "fst (updater_main e v verify p) = 0"
    and "files p ''PKGBUILD'' = Some content"
    and "fst (get_package_info e v p) = Some info"
    and "is_hex_digest (pi_sha256 info)"
    and "c = update_source (pi_url info) (reset_pkgrel (update_version v content))"
  shows "files (snd (updater_main e v verify p)) ''PKGBUILD'' = Some (update_sha256 (pi_sha256 info) c) \<and>
         (\<exists>fs f. index_record e v = Fetched fs \<and> first_sdist fs = Some f \<and>
                 pi_sha256 info = digest_sha256 f) \<and>
         (has_sub sentinel c \<longrightarrow>
            update_sha256 (pi_sha256 info) c
              = re_sub (m_literal sentinel) (\<lambda>_. checksum_assignment (pi_sha256 info)) c) \<and>
         (sq \<notin> set old \<and> c = a @ checksum_assignment old @ b \<and>
            occurrences ''sha256sums=('' c = 1 \<longrightarrow>
            update_sha256 (pi_sha256 info) c = a @ checksum_assignment (pi_sha256 info) @ b \<and>
            occurrences ''sha256sums=('' (update_sha256 (pi_sha256 info) c) = 1) \<and>
         (body \<noteq> [] \<and> rparen \<notin> set body \<and> c = a @ ''source=('' @ body @ '')'' @ b \<and>
            \<not> has_sub ''source=('' (a @ ''source='') \<and> \<not> has_sub ''sha256sums=('' c \<longrightarrow>
            update_sha256 (pi_sha256 info) c
              = a @ ''source=('' @ body @ '')'' @ [nl] @ checksum_assignment (pi_sha256 info) @ b \<and>
            occurrences ''sha256sums=('' (update_sha256 (pi_sha256 info) c) = 1) \<and>
         (\<not> has_sub ''sha256sums=('' c \<and> \<not> has_sub ''source=('' c \<longrightarrow>
            update_sha256 (pi_sha256 info) c = c)"
proof -
  have "files (snd (updater_main e v verify p)) = (files p)(''PKGBUILD'' \<mapsto> rewrite v info content)"
    by (rule updater_twice_files(2)[OF assms(1,2,3)])
  then have w: "files (snd (updater_main e v verify p)) ''PKGBUILD'' = Some (update_sha256 (pi_sha256 info) c)"
    by (simp add: rewrite_def assms(5))
  have d: "\<exists>fs f. index_record e v = Fetched fs \<and> first_sdist fs = Some f \<and>
                 pi_sha256 info = digest_sha256 f"
    using get_package_info_digest[OF assms(3)] by blast
  show ?thesis
    using w d update_sha256_outcomes[OF assms(4), of c old a b body] by blast
qed


theorem updater_checksum_outcomes_witness:
  "files (snd (updater_main verified_env ''2.0.0'' True (proc_of sentinel_descriptor))) ''PKGBUILD''
     = Some (''pkgver=2.0.0'' @ [nl] @ ''pkgrel=1'' @ [nl] @ checksum_assignment ''0123abcd'' @ [nl]) \<and>
   occurrences ''sha256sums=(''
     (''pkgver=2.0.0'' @ [nl] @ ''pkgrel=1'' @ [nl] @ checksum_assignment ''0123abcd'' @ [nl]) = 1 \<and>
   files (snd (updater_main verified_env ''2.0.0'' True (proc_of unchecked_source_descriptor))) ''PKGBUILD''
     = Some (''pkgver=2.0.0'' @ [nl] @ ''source=('' @ ''awscli-local.tar.gz'' @ '')'' @ [nl]
             @ checksum_assignment ''0123abcd'' @ [nl]) \<and>
   occurrences ''sha256sums=(''
     (''pkgver=2.0.0'' @ [nl] @ ''source=('' @ ''awscli-local.tar.gz'' @ '')'' @ [nl]
             @ checksum_assignment ''0123abcd'' @ [nl]) = 1"
proof -
  have hex: "is_hex_digest (pi_sha256 sample_info)"
    by (simp add: is_hex_digest_def sample_info_def sample_sdist_def)
  have h: "pi_sha256 sample_info = ''0123abcd''" by (simp add: sample_info_def sample_sdist_def)
  have f1: "files (proc_of sentinel_descriptor) ''PKGBUILD'' = Some sentinel_descriptor"
    by (simp add: proc_of_def)
  have f2: "files (proc_of unchecked_source_descriptor) ''PKGBUILD'' = Some unchecked_source_descriptor"
    by (simp add: proc_of_def)
  define c1 where "c1 = ''pkgver=2.0.0'' @ [nl] @ ''pkgrel=1'' @ [nl] @ checksum_assignment ''SKIP'' @ [nl]"
  define c2 where "c2 = ''pkgver=2.0.0'' @ [nl] @ ''source=('' @ ''awscli-local.tar.gz'' @ '')'' @ [nl]"
  have s1: "c1 = update_source (pi_url sample_info) (reset_pkgrel (update_version ''2.0.0'' sentinel_descriptor))"
    by (simp add: c1_def update_source_def reset_pkgrel_def update_version_def sentinel_descriptor_def
        m_rest_of_line_def checksum_assignment_def)
  have s2: "c2 = update_source (pi_url sample_info)
                   (reset_pkgrel (update_version ''2.0.0'' unchecked_source_descriptor))"
    by (simp add: c2_def update_source_def reset_pkgrel_def update_version_def
        unchecked_source_descriptor_def m_rest_of_line_def m_source_url_def sample_info_def
        sample_sdist_def registry_def)
  have d1: "sq \<notin> set ''SKIP'' \<and> c1 = (''pkgver=2.0.0'' @ [nl] @ ''pkgrel=1'' @ [nl])
              @ checksum_assignment ''SKIP'' @ [nl] \<and> occurrences ''sha256sums=('' c1 = 1"
    by (simp add: c1_def checksum_assignment_def)
  have d2: "''awscli-local.tar.gz'' \<noteq> [] \<and> rparen \<notin> set ''awscli-local.tar.gz'' \<and>
            c2 = (''pkgver=2.0.0'' @ [nl]) @ ''source=('' @ ''awscli-local.tar.gz'' @ '')'' @ [nl] \<and>
            \<not> has_sub ''source=('' ((''pkgver=2.0.0'' @ [nl]) @ ''source='') \<and>
            \<not> has_sub ''sha256sums=('' c2"
    by (simp add: c2_def)
  have r1: "files (snd (updater_main verified_env ''2.0.0'' True (proc_of sentinel_descriptor))) ''PKGBUILD''
              = Some ((''pkgver=2.0.0'' @ [nl] @ ''pkgrel=1'' @ [nl]) @ checksum_assignment ''0123abcd'' @ [nl]) \<and>
            occurrences ''sha256sums=(''
              ((''pkgver=2.0.0'' @ [nl] @ ''pkgrel=1'' @ [nl]) @ checksum_assignment ''0123abcd'' @ [nl]) = 1"
    using updater_checksum_outcomes[OF verified_env_run f1 verified_env_info hex s1,
        of "''SKIP''" "''pkgver=2.0.0'' @ [nl] @ ''pkgrel=1'' @ [nl]" "[nl]"] d1
    unfolding h by metis
  have r2: "files (snd (updater_main verified_env ''2.0.0'' True (proc_of unchecked_source_descriptor))) ''PKGBUILD''
              = Some ((''pkgver=2.0.0'' @ [nl]) @ ''source=('' @ ''awscli-local.tar.gz'' @ '')'' @ [nl]
                      @ checksum_assignment ''0123abcd'' @ [nl]) \<and>
            occurrences ''sha256sums=(''
              ((''pkgver=2.0.0'' @ [nl]) @ ''source=('' @ ''awscli-local.tar.gz'' @ '')'' @ [nl]
                      @ checksum_assignment ''0123abcd'' @ [nl]) = 1"
    using updater_checksum_outcomes[OF verified_env_run f2 verified_env_info hex s2,
        where body = "''awscli-local.tar.gz''" and a = "''pkgver=2.0.0'' @ [nl]" and b = "[nl]"] d2
    unfolding h by metis
  show ?thesis using r1 r2 by simp
qed

text \<open>
  The claim as stated fails on a descriptor of the third kind that has no source
  assignment either: the run succeeds and the descriptor it writes has no checksum
  assignment at all.
\<close>

theorem checksum_step_counterexample:
  "\<not> has_sub ''sha256sums=('' sample_descriptor \<and>
   fst (updater_main verified_env ''2.0.0'' True sample_proc) = 0 \<and>
   files (snd (updater_main verified_env ''2.0.0'' True sample_proc)) ''PKGBUILD''
     = Some (''pkgname=awscli-local'' @ [nl] @ ''pkgver=2.0.0'' @ [nl] @ ''pkgrel=1'' @ [nl]) \<and>
   occurrences ''sha256sums=(''
     (''pkgname=awscli-local'' @ [nl] @ ''pkgver=2.0.0'' @ [nl] @ ''pkgrel=1'' @ [nl]) = 0"
proof -
  have r: "rewrite ''2.0.0'' sample_info sample_descriptor
      = ''pkgname=awscli-local'' @ [nl] @ ''pkgver=2.0.0'' @ [nl] @ ''pkgrel=1'' @ [nl]"
    by (simp add: rewrite_def update_sha256_def update_source_def reset_pkgrel_def update_version_def
        sample_descriptor_def sample_info_def sample_sdist_def m_rest_of_line_def m_array_def
        sentinel_def)
  have z: "fst (updater_main verified_env ''2.0.0'' True sample_proc) = 0"
    by (simp add: updater_main_cases get_package_info_def verify_checksum_def update_pkgbuild_def
        Let_def verified_env_def sample_wheel_def sample_sdist_def sample_proc_def)
  have i: "fst (get_package_info verified_env ''2.0.0'' p) = Some sample_info" for p
    by (simp add: get_package_info_def verified_env_def sample_wheel_def sample_sdist_def sample_info_def)
  have fp: "files sample_proc ''PKGBUILD'' = Some sample_descriptor" by (simp add: sample_proc_def)
  from updater_zero_files[OF z] obtain content info where
    "files sample_proc ''PKGBUILD'' = Some content"
    "fst (get_package_info verified_env ''2.0.0''
            (print (''Updating PKGBUILD to version '' @ ''2.0.0'') sample_proc)) = Some info"
    "files (snd (updater_main verified_env ''2.0.0'' True sample_proc))
       = (files sample_proc)(''PKGBUILD'' \<mapsto> rewrite ''2.0.0'' info content)"
    by blast
  then have "files (snd (updater_main verified_env ''2.0.0'' True sample_proc))
       = (files sample_proc)(''PKGBUILD'' \<mapsto> rewrite ''2.0.0'' sample_info sample_descriptor)"
    using i fp by simp
  then have w: "files (snd (updater_main verified_env ''2.0.0'' True sample_proc)) ''PKGBUILD''
       = Some (''pkgname=awscli-local'' @ [nl] @ ''pkgver=2.0.0'' @ [nl] @ ''pkgrel=1'' @ [nl])"
    using r by simp
  have n: "\<not> has_sub ''sha256sums=('' sample_descriptor" by (simp add: sample_descriptor_def)
  have o: "occurrences ''sha256sums=(''
     (''pkgname=awscli-local'' @ [nl] @ ''pkgver=2.0.0'' @ [nl] @ ''pkgrel=1'' @ [nl]) = 0"
    by simp
  show ?thesis using z w n o by blast
qed

section \<open>A source array in single quotes\<close>

text \<open>
  C7. The source array holds the registry URL in single quotes. The pattern ends the
  replaced text at the next double quote or parenthesis only, so the closing single
  quote is taken for a part of the old path and is lost: in the descriptor that a
  successful run writes, the text between the substituted suffix and the closing
  parenthesis is not as it was.
\<close>

theorem single_quoted_source_loses_quote:
  "fst (updater_main verified_env ''2.0.0'' True (proc_of single_quoted_source_descriptor)) = 0 \<and>
   files (snd (updater_main verified_env ''2.0.0'' True (proc_of single_quoted_source_descriptor)))
       ''PKGBUILD''
     = Some (''pkgver=2.0.0'' @ [nl] @ ''pkgrel=1'' @ [nl]
             @ ''source=('' @ [sq]
             @ ''https://files.pythonhosted.org/packages/ab/cd/awscli-local-2.0.0.tar.gz''
             @ '')'' @ [nl]
             @ ''sha256sums=('' @ [sq] @ ''0123abcd'' @ [sq] @ '')'' @ [nl])"
proof -
  have c: "files (proc_of single_quoted_source_descriptor) ''PKGBUILD''
             = Some single_quoted_source_descriptor"
    by (simp add: proc_of_def)
  have s: "update_source (pi_url sample_info)
             (reset_pkgrel (update_version ''2.0.0'' single_quoted_source_descriptor)) =
           ''pkgver=2.0.0'' @ [nl] @ ''pkgrel=1'' @ [nl]
           @ ''source=('' @ [sq]
           @ ''https://files.pythonhosted.org/packages/ab/cd/awscli-local-2.0.0.tar.gz''
           @ '')'' @ [nl]
           @ ''sha256sums=('' @ [sq] @ ''SKIP'' @ [sq] @ '')'' @ [nl]"
    by (simp add: update_source_def py_split_sample_url single_quoted_source_descriptor_def
        reset_pkgrel_def update_version_def m_rest_of_line_def m_source_url_def registry_def Let_def)
  have r: "rewrite ''2.0.0'' sample_info single_quoted_source_descriptor =
           ''pkgver=2.0.0'' @ [nl] @ ''pkgrel=1'' @ [nl]
           @ ''source=('' @ [sq]
           @ ''https://files.pythonhosted.org/packages/ab/cd/awscli-local-2.0.0.tar.gz''
           @ '')'' @ [nl]
           @ ''sha256sums=('' @ [sq] @ ''0123abcd'' @ [sq] @ '')'' @ [nl]"
    unfolding rewrite_def s
    by (simp add: update_sha256_def sentinel_def checksum_assignment_def m_literal_def
        sample_info_def sample_sdist_def)
  have "files (snd (updater_main verified_env ''2.0.0'' True (proc_of single_quoted_source_descriptor)))
          = (files (proc_of single_quoted_source_descriptor))
              (''PKGBUILD'' \<mapsto> rewrite ''2.0.0'' sample_info single_quoted_source_descriptor)"
    by (rule updater_twice_files(2)[OF verified_env_run c verified_env_info])
  then show ?thesis using verified_env_run[of "''2.0.0''" single_quoted_source_descriptor] r by simp
qed

section \<open>Running the updater twice\<close>

text \<open>
  C2 (as amended). The descriptor is laid out in lines of the five kinds, with no
  second checksum line beside the sentinel; the version holds no line feed, \<open>=\<close>,
  parenthesis or backslash and is not empty, the path taken from the download URL is
  a well-formed path of a source line, and the digest is hexadecimal. Then a second
  run after a successful one succeeds and leaves every file as the first run left it;
  the descriptor the first run writes is the expected one, line by line, and every
  release line in it is \<open>pkgrel=1\<close>.
\<close>

theorem updater_twice_same:
  assumes "fst (updater_main e v verify p) = 0"
    and "files p ''PKGBUILD'' = Some (descriptor_text ls)"
    and "fst (get_package_info e v p) = Some info"
    and "list_all line_ok ls" and "sentinel_exclusive ls"
    and "line_ok (Version_line v)" and "template_literal v"
    and "line_ok (Source_line (last (py_split ''packages/'' (pi_url info))))"
    and "is_hex_digest (pi_sha256 info)"
  shows "fst (updater_main e v verify (snd (updater_main e v verify p))) = 0 \<and>
         files (snd (updater_main e v verify (snd (updater_main e v verify p))))
           = files (snd (updater_main e v verify p)) \<and>
         files (snd (updater_main e v verify p)) ''PKGBUILD''
           = Some (descriptor_text
                (updated_lines v (last (py_split ''packages/'' (pi_url info))) (pi_sha256 info) ls)) \<and>
         (\<forall>r. Release_line r \<in> set (updated_lines v (last (py_split ''packages/'' (pi_url info)))
                                       (pi_sha256 info) ls) \<longrightarrow> r = ''1'')"
proof -
  let ?u = "updated_lines v (last (py_split ''packages/'' (pi_url info))) (pi_sha256 info) ls"
  note t = updater_twice_files[OF assms(1,2,3)]
  have once: "rewrite v info (descriptor_text ls) = descriptor_text ?u"
    by (rule rewrite_lines[OF assms(4,5,6,8)])
  have twice: "rewrite v info (rewrite v info (descriptor_text ls)) = rewrite v info (descriptor_text ls)"
    by (rule rewrite_twice_lines[OF assms(4,5,6,8,9)])
  have rel: "r = ''1''" if "Release_line r \<in> set ?u" for r
  proof -
    have "Release_line r = Checksum_line (pi_sha256 info) \<or>
        (\<exists>k\<in>set ls. Release_line r = updated_line v (last (py_split ''packages/'' (pi_url info))) (pi_sha256 info) k)"
      using that by (rule updated_lines_members)
    then obtain k where "Release_line r = updated_line v (last (py_split ''packages/'' (pi_url info))) (pi_sha256 info) k"
      by auto
    then show ?thesis by (cases k) auto
  qed
  show ?thesis using t once twice rel by simp
qed

theorem updater_twice_same_witness:
  "fst (updater_main verified_env ''2.0.0'' True
          (snd (updater_main verified_env ''2.0.0'' True (proc_of (descriptor_text sample_lines))))) = 0 \<and>
   files (snd (updater_main verified_env ''2.0.0'' True
          (snd (updater_main verified_env ''2.0.0'' True (proc_of (descriptor_text sample_lines))))))
     = files (snd (updater_main verified_env ''2.0.0'' True (proc_of (descriptor_text sample_lines)))) \<and>
   files (snd (updater_main verified_env ''2.0.0'' True (proc_of (descriptor_text sample_lines)))) ''PKGBUILD''
     = Some (descriptor_text
         [Other_line ''pkgname=awscli-local'',
          Version_line ''2.0.0'',
          Release_line ''1'',
          Source_line ''ab/cd/awscli-local-2.0.0.tar.gz'',
          Checksum_line ''0123abcd'',
          Other_line ''build() {''])"
proof -
  have c: "files (proc_of (descriptor_text sample_lines)) ''PKGBUILD'' = Some (descriptor_text sample_lines)"
    by (simp add: proc_of_def)
  have ok: "list_all line_ok sample_lines"
    by (simp add: sample_lines_def avoids_def registry_def)
  have excl: "sentinel_exclusive sample_lines"
    by (simp add: sentinel_exclusive_def sample_lines_def)
  have v: "line_ok (Version_line ''2.0.0'')" "template_literal ''2.0.0''"
    by (simp_all add: avoids_def template_literal_def)
  have path: "line_ok (Source_line (last (py_split ''packages/'' (pi_url sample_info))))"
    unfolding py_split_sample_url by (simp add: avoids_def registry_def)
  have hex: "is_hex_digest (pi_sha256 sample_info)"
    by (simp add: sample_info_def sample_sdist_def is_hex_digest_def)
  have u: "updated_lines ''2.0.0'' (last (py_split ''packages/'' (pi_url sample_info)))
              (pi_sha256 sample_info) sample_lines
      = [Other_line ''pkgname=awscli-local'', Version_line ''2.0.0'', Release_line ''1'',
         Source_line ''ab/cd/awscli-local-2.0.0.tar.gz'', Checksum_line ''0123abcd'',
         Other_line ''build() {'']"
    unfolding py_split_sample_url
    by (simp add: updated_lines_def sample_lines_def sample_info_def sample_sdist_def)
  show ?thesis
    using updater_twice_same[OF verified_env_run c verified_env_info ok excl v path hex]
    unfolding u by blast
qed

text \<open>
  The claim as stated fails on a descriptor that keeps an old checksum in a comment
  beside the sentinel: the first run replaces the sentinel only, the second run, which
  finds no sentinel any more, replaces the value in the comment as well.
\<close>

theorem updater_twice_counterexample:
  "fst (updater_main verified_env ''2.0.0'' True (proc_of commented_checksum_descriptor)) = 0 \<and>
   fst (updater_main verified_env ''2.0.0'' True
          (snd (updater_main verified_env ''2.0.0'' True (proc_of commented_checksum_descriptor)))) = 0 \<and>
   files (snd (updater_main verified_env ''2.0.0'' True (proc_of commented_checksum_descriptor))) ''PKGBUILD''
     = Some (''pkgver=2.0.0'' @ [nl] @ ''pkgrel=1'' @ [nl]
             @ ''#sha256sums=('' @ [sq] @ ''0000'' @ [sq] @ '')'' @ [nl]
             @ ''sha256sums=('' @ [sq] @ ''0123abcd'' @ [sq] @ '')'' @ [nl]) \<and>
   files (snd (updater_main verified_env ''2.0.0'' True
          (snd (updater_main verified_env ''2.0.0'' True (proc_of commented_checksum_descriptor))))) ''PKGBUILD''
     = Some (''pkgver=2.0.0'' @ [nl] @ ''pkgrel=1'' @ [nl]
             @ ''#sha256sums=('' @ [sq] @ ''0123abcd'' @ [sq] @ '')'' @ [nl]
             @ ''sha256sums=('' @ [sq] @ ''0123abcd'' @ [sq] @ '')'' @ [nl]) \<and>
   files (snd (updater_main verified_env ''2.0.0'' True
          (snd (updater_main verified_env ''2.0.0'' True (proc_of commented_checksum_descriptor))))) ''PKGBUILD''
     \<noteq> files (snd (updater_main verified_env ''2.0.0'' True (proc_of commented_checksum_descriptor))) ''PKGBUILD''"
proof -
  let ?x = "''pkgver=2.0.0'' @ [nl] @ ''pkgrel=1'' @ [nl]
             @ ''#sha256sums=('' @ [sq] @ ''0000'' @ [sq] @ '')'' @ [nl]
             @ ''sha256sums=('' @ [sq] @ ''0123abcd'' @ [sq] @ '')'' @ [nl]"
  let ?y = "''pkgver=2.0.0'' @ [nl] @ ''pkgrel=1'' @ [nl]
             @ ''#sha256sums=('' @ [sq] @ ''0123abcd'' @ [sq] @ '')'' @ [nl]
             @ ''sha256sums=('' @ [sq] @ ''0123abcd'' @ [sq] @ '')'' @ [nl]"
  have c: "files (proc_of commented_checksum_descriptor) ''PKGBUILD'' = Some commented_checksum_descriptor"
    by (simp add: proc_of_def)
  have r1: "rewrite ''2.0.0'' sample_info commented_checksum_descriptor = ?x"
    by (simp add: rewrite_def update_sha256_def update_source_def reset_pkgrel_def update_version_def
        commented_checksum_descriptor_def sample_info_def sample_sdist_def m_rest_of_line_def
        m_literal_def sentinel_def checksum_assignment_def)
  have r2: "rewrite ''2.0.0'' sample_info ?x = ?y"
    by (simp add: rewrite_def update_sha256_def update_source_def reset_pkgrel_def update_version_def
        sample_info_def sample_sdist_def m_rest_of_line_def
        m_quoted_checksum_def sentinel_def checksum_assignment_def)
  have ne: "?y \<noteq> ?x" by simp
  note t = updater_twice_files[OF verified_env_run c verified_env_info]
  show ?thesis
    using verified_env_run[of "''2.0.0''" commented_checksum_descriptor] t r1 r2 ne
    by simp
qed

end
